theory Spec2Isabelle
  imports Main
begin

section \<open>Strings and characters\<close>

text \<open>
  A JavaScript string is a sequence of UTF-16 code units. A document is modelled as a
  \<^typ>\<open>string\<close>, a list of 8-bit characters, each standing for the code unit of the
  same number: the model covers the documents whose code units are all below 256.
\<close>

definition charCode :: "char \<Rightarrow> nat" where
  "charCode c = of_char c"

text \<open>The class \<^verbatim>\<open>\s\<close> of a JavaScript regular expression, below 256:
  tab, line feed, vertical tab, form feed, carriage return, space, no-break space.\<close>

definition is_space :: "char \<Rightarrow> bool" where
  "is_space c = (charCode c \<in> {9, 10, 11, 12, 13, 32, 160})"

text \<open>The characters that \<^verbatim>\<open>.\<close> does not match (no \<^verbatim>\<open>s\<close> flag): the line
  terminators, below 256 line feed and carriage return.\<close>

definition is_line_terminator :: "char \<Rightarrow> bool" where
  "is_line_terminator c = (charCode c \<in> {10, 13})"

text \<open>The class \<^verbatim>\<open>[a-zA-Z-]\<close>.\<close>

definition is_name_char :: "char \<Rightarrow> bool" where
  "is_name_char c = ((97 \<le> charCode c \<and> charCode c \<le> 122) \<or> (65 \<le> charCode c \<and> charCode c \<le> 90) \<or> charCode c = 45)"

text \<open>The class \<^verbatim>\<open>[\t| ]\<close>: inside a character class the bar is a literal bar.\<close>

definition is_indent_char :: "char \<Rightarrow> bool" where
  "is_indent_char c = (charCode c \<in> {9, 124, 32})"

text \<open>The class \<^verbatim>\<open>[\t|\s]\<close>.\<close>

definition is_tagWS_char :: "char \<Rightarrow> bool" where
  "is_tagWS_char c = (charCode c = 9 \<or> charCode c = 124 \<or> is_space c)"

text \<open>\<^verbatim>\<open>String.prototype.toLowerCase\<close> on one code unit below 256: the letters A to Z, and
  the Latin-1 capitals (0xC0 to 0xDE without the multiplication sign 0xD7).\<close>

definition lower_char :: "char \<Rightarrow> char" where
  "lower_char c =
     (if (65 \<le> charCode c \<and> charCode c \<le> 90) \<or> (192 \<le> charCode c \<and> charCode c \<le> 222 \<and> charCode c \<noteq> 215)
      then char_of (charCode c + 32) else c)"

definition toLowerCase :: "string \<Rightarrow> string" where
  "toLowerCase s = map lower_char s"

text \<open>\<^verbatim>\<open>String.prototype.trim\<close>: white space and line terminators leave both ends.\<close>

definition trim :: "string \<Rightarrow> string" where
  "trim s = rev (dropWhile is_space (rev (dropWhile is_space s)))"

text \<open>\<^verbatim>\<open>s.replace(/\s/g, '')\<close>\<close>

definition strip_space :: "string \<Rightarrow> string" where
  "strip_space s = filter (\<lambda>c. \<not> is_space c) s"

text \<open>\<^verbatim>\<open>s.endsWith(t)\<close>\<close>

definition endsWith :: "string \<Rightarrow> string \<Rightarrow> bool" where
  "endsWith s t = (length t \<le> length s \<and> drop (length s - length t) s = t)"

section \<open>The tokenizer: \<^verbatim>\<open>parseHTML\<close>\<close>

text \<open>
  \<^verbatim>\<open>parseHTML\<close> builds a lexer with \<^verbatim>\<open>moo.states\<close> and resets it on the document.
  The lexer of a state tries the rules of the state in the order they are written, at
  the current index only (one sticky regular expression, the alternation of the rules),
  and the first rule that matches there gives the token. When no rule matches, the
  lexer has no error rule of its own and \<^verbatim>\<open>next()\<close> throws (invalid syntax). At the end
  of the document \<^verbatim>\<open>next()\<close> returns \<^verbatim>\<open>undefined\<close>.
\<close>

datatype token_type =
    CommentStart | DocType | TagOpen | TagClose | Nl | Indent | Any
  | CommentEnd | CommentAny
  | TagSelfClose | TagEnd | AttrName | TagWS | TagAny
  | AttrAssignment | AttrEnd | AttrValue | AttrAny

datatype lexer_state = St_main | St_comment | St_tag | St_attr

datatype transition = Stay | Push lexer_state | Pop

record token =
  tk_type :: token_type
  tk_value :: string
  tk_text :: string
  tk_offset :: nat

subsection \<open>The regular expressions of the rules\<close>

text \<open>
  Each matcher gives the length of the match of its regular expression at the start of
  the input, if there is one. In every expression below a repetition is followed by a
  character that the repeated class excludes, so the greedy match is the only one.
\<close>

text \<open>A literal.\<close>

definition m_lit :: "string \<Rightarrow> string \<Rightarrow> nat option" where
  "m_lit l inp = (if take (length l) inp = l then Some (length l) else None)"

text \<open>\<^verbatim>\<open>[class]+\<close>\<close>

definition m_plus :: "(char \<Rightarrow> bool) \<Rightarrow> string \<Rightarrow> nat option" where
  "m_plus P inp = (let n = length (takeWhile P inp) in if 0 < n then Some n else None)"

text \<open>One character of a class.\<close>

definition m_one :: "(char \<Rightarrow> bool) \<Rightarrow> string \<Rightarrow> nat option" where
  "m_one P inp = (case inp of [] \<Rightarrow> None | c # _ \<Rightarrow> if P c then Some 1 else None)"

text \<open>\<^verbatim>\<open>/<![^>]+>/\<close>\<close>

definition m_docType :: "string \<Rightarrow> nat option" where
  "m_docType inp =
     (if take 2 inp = ''<!'' then
        (let body = takeWhile (\<lambda>c. c \<noteq> CHR ''>'') (drop 2 inp)
         in if body \<noteq> [] \<and> take 1 (drop (2 + length body) inp) = ''>''
            then Some (2 + length body + 1) else None)
      else None)"

text \<open>\<^verbatim>\<open>/<\s*[a-zA-Z-]+/\<close>\<close>

definition m_tagOpen :: "string \<Rightarrow> nat option" where
  "m_tagOpen inp =
     (if take 1 inp = ''<'' then
        (let ws = takeWhile is_space (drop 1 inp);
             name = takeWhile is_name_char (drop (1 + length ws) inp)
         in if name \<noteq> [] then Some (1 + length ws + length name) else None)
      else None)"

text \<open>\<^verbatim>\<open>/<\/\s*[a-zA-Z-]+\s*>/\<close>\<close>

definition m_tagClose :: "string \<Rightarrow> nat option" where
  "m_tagClose inp =
     (if take 2 inp = ''</'' then
        (let ws = takeWhile is_space (drop 2 inp);
             name = takeWhile is_name_char (drop (2 + length ws) inp);
             ws2 = takeWhile is_space (drop (2 + length ws + length name) inp)
         in if name \<noteq> [] \<and> take 1 (drop (2 + length ws + length name + length ws2) inp) = ''>''
            then Some (2 + length ws + length name + length ws2 + 1) else None)
      else None)"

text \<open>\<^verbatim>\<open>/\r?\n/\<close>\<close>

definition m_nl :: "string \<Rightarrow> nat option" where
  "m_nl inp =
     (if take 2 inp = [CHR 0x0D, CHR 0x0A] then Some 2
      else if take 1 inp = [CHR 0x0A] then Some 1 else None)"

text \<open>\<^verbatim>\<open>/\s*-->/\<close>\<close>

definition m_commentEnd :: "string \<Rightarrow> nat option" where
  "m_commentEnd inp =
     (let ws = takeWhile is_space inp
      in if take 3 (drop (length ws) inp) = ''-->'' then Some (length ws + 3) else None)"

text \<open>\<^verbatim>\<open>/"[^"]+"/\<close>\<close>

definition m_attrValue :: "string \<Rightarrow> nat option" where
  "m_attrValue inp =
     (if take 1 inp = [CHR 0x22] then
        (let body = takeWhile (\<lambda>c. c \<noteq> CHR 0x22) (drop 1 inp)
         in if body \<noteq> [] \<and> take 1 (drop (1 + length body) inp) = [CHR 0x22]
            then Some (1 + length body + 1) else None)
      else None)"

subsection \<open>The value functions of the rules\<close>

text \<open>\<^verbatim>\<open>(text) => text.toLowerCase().replace(/\s/g, '')\<close>\<close>

definition tag_value :: "string \<Rightarrow> string" where
  "tag_value txt = strip_space (toLowerCase txt)"

text \<open>\<^verbatim>\<open>.replace(/^('|")?/g, '"')\<close>: a quote at the start, or else the empty string at
  the start, becomes a double quote.\<close>

definition quote_start :: "string \<Rightarrow> string" where
  "quote_start s =
     (case s of [] \<Rightarrow> [CHR 0x22]
      | c # cs \<Rightarrow> if c = CHR 0x27 \<or> c = CHR 0x22 then CHR 0x22 # cs else CHR 0x22 # c # cs)"

text \<open>\<^verbatim>\<open>.replace(/("|')?$/, '"')\<close>: the first match is the quote that ends the string,
  or else the empty string at the end; it becomes a double quote.\<close>

definition quote_end :: "string \<Rightarrow> string" where
  "quote_end s =
     (if s \<noteq> [] \<and> (last s = CHR 0x22 \<or> last s = CHR 0x27) then butlast s @ [CHR 0x22]
      else s @ [CHR 0x22])"

definition attrValue_value :: "string \<Rightarrow> string" where
  "attrValue_value a = quote_end (quote_start (trim a))"

subsection \<open>The rules of each state\<close>

record rule =
  r_type :: token_type
  r_match :: "string \<Rightarrow> nat option"
  r_value :: "string \<Rightarrow> string"
  r_trans :: transition

definition mk_rule :: "token_type \<Rightarrow> (string \<Rightarrow> nat option) \<Rightarrow> (string \<Rightarrow> string) \<Rightarrow> transition \<Rightarrow> rule" where
  "mk_rule ty m v tr = \<lparr>r_type = ty, r_match = m, r_value = v, r_trans = tr\<rparr>"

fun rules :: "lexer_state \<Rightarrow> rule list" where
  "rules St_main =
     [mk_rule CommentStart (m_lit ''<!--'') id (Push St_comment),
      mk_rule DocType m_docType id Stay,
      mk_rule TagOpen m_tagOpen tag_value (Push St_tag),
      mk_rule TagClose m_tagClose tag_value Stay,
      mk_rule Nl m_nl id Stay,
      mk_rule Indent (m_plus is_indent_char) id Stay,
      mk_rule Any (m_plus (\<lambda>c. \<not> is_line_terminator c)) id Stay]"
| "rules St_comment =
     [mk_rule CommentEnd m_commentEnd id Pop,
      mk_rule CommentAny (m_one (\<lambda>c. \<not> is_line_terminator c)) id Stay]"
| "rules St_tag =
     [mk_rule TagSelfClose (m_lit ''/>'') id Pop,
      mk_rule TagEnd (m_lit ''>'') id Pop,
      mk_rule AttrName (m_plus is_name_char) toLowerCase (Push St_attr),
      mk_rule TagWS (m_plus is_tagWS_char) id Stay,
      mk_rule TagAny (m_plus (\<lambda>c. \<not> is_line_terminator c)) id Stay]"
| "rules St_attr =
     [mk_rule AttrAssignment (m_lit ''='') trim Stay,
      mk_rule AttrEnd (m_one is_space) id Pop,
      mk_rule AttrValue m_attrValue attrValue_value Pop,
      mk_rule AttrAny (m_plus (\<lambda>c. \<not> is_line_terminator c)) id Stay]"

subsection \<open>The lexer\<close>

text \<open>The first rule, in order, that matches at the start of the input.\<close>

fun first_match :: "rule list \<Rightarrow> string \<Rightarrow> (rule \<times> nat) option" where
  "first_match [] inp = None"
| "first_match (r # rs) inp =
     (case r_match r inp of Some n \<Rightarrow> Some (r, n) | None \<Rightarrow> first_match rs inp)"

text \<open>\<^verbatim>\<open>popState\<close> on an empty stack keeps the state; \<^verbatim>\<open>pushState\<close> saves the current
  state on the stack (its top is the head of the list).\<close>

fun apply_trans :: "transition \<Rightarrow> lexer_state \<Rightarrow> lexer_state list \<Rightarrow> lexer_state \<times> lexer_state list" where
  "apply_trans Stay st stk = (st, stk)"
| "apply_trans (Push s) st stk = (s, st # stk)"
| "apply_trans Pop st [] = (st, [])"
| "apply_trans Pop st (s # stk) = (s, stk)"

text \<open>How the token stream ends: at the end of the document, or where \<^verbatim>\<open>next()\<close> throws
  because no rule matches.\<close>

datatype stream_end = Eof | Invalid

definition mk_token :: "rule \<Rightarrow> string \<Rightarrow> nat \<Rightarrow> token" where
  "mk_token r txt off = \<lparr>tk_type = r_type r, tk_value = r_value r txt, tk_text = txt, tk_offset = off\<rparr>"

lemma m_lit_pos: "m_lit l inp = Some n \<Longrightarrow> l \<noteq> [] \<Longrightarrow> 0 < n \<and> n \<le> length inp"
  by (auto simp: m_lit_def split: if_splits)

lemma m_plus_pos: "m_plus P inp = Some n \<Longrightarrow> 0 < n \<and> n \<le> length inp"
  by (auto simp: m_plus_def Let_def length_takeWhile_le split: if_splits)

lemma m_one_pos: "m_one P inp = Some n \<Longrightarrow> 0 < n \<and> n \<le> length inp"
  by (auto simp: m_one_def split: list.splits if_splits)

lemma take1_drop_lt: "take 1 (drop k inp) = [c] \<Longrightarrow> k < length inp"
  by (cases "k < length inp") auto

lemma m_docType_pos: "m_docType inp = Some n \<Longrightarrow> 0 < n \<and> n \<le> length inp"
proof -
  assume a: "m_docType inp = Some n"
  define body where "body = takeWhile (\<lambda>c. c \<noteq> CHR ''>'') (drop 2 inp)"
  from a have n: "n = 2 + length body + 1"
    and t: "take 1 (drop (2 + length body) inp) = ''>''"
    by (auto simp: m_docType_def Let_def body_def split: if_splits)
  from t have "2 + length body < length inp" by (rule take1_drop_lt)
  with n show ?thesis by simp
qed

lemma m_tagOpen_pos: "m_tagOpen inp = Some n \<Longrightarrow> 0 < n \<and> n \<le> length inp"
proof -
  assume a: "m_tagOpen inp = Some n"
  define ws where "ws = takeWhile is_space (drop 1 inp)"
  define name where "name = takeWhile is_name_char (drop (1 + length ws) inp)"
  from a have n: "n = 1 + length ws + length name" and ne: "name \<noteq> []"
    by (auto simp: m_tagOpen_def Let_def ws_def name_def split: if_splits)
  have "length name \<le> length (drop (1 + length ws) inp)"
    unfolding name_def by (rule length_takeWhile_le)
  moreover from ne have "drop (1 + length ws) inp \<noteq> []"
    unfolding name_def by auto
  ultimately show ?thesis using n by auto
qed

lemma m_tagClose_pos: "m_tagClose inp = Some n \<Longrightarrow> 0 < n \<and> n \<le> length inp"
proof -
  assume a: "m_tagClose inp = Some n"
  define ws where "ws = takeWhile is_space (drop 2 inp)"
  define name where "name = takeWhile is_name_char (drop (2 + length ws) inp)"
  define ws2 where "ws2 = takeWhile is_space (drop (2 + length ws + length name) inp)"
  from a have n: "n = 2 + length ws + length name + length ws2 + 1"
    and t: "take 1 (drop (2 + length ws + length name + length ws2) inp) = ''>''"
    by (auto simp: m_tagClose_def Let_def ws_def name_def ws2_def split: if_splits)
  from t have "2 + length ws + length name + length ws2 < length inp" by (rule take1_drop_lt)
  with n show ?thesis by simp
qed

lemma m_nl_pos: "m_nl inp = Some n \<Longrightarrow> 0 < n \<and> n \<le> length inp"
  by (cases inp; cases "tl inp") (auto simp: m_nl_def split: if_splits)

lemma m_commentEnd_pos: "m_commentEnd inp = Some n \<Longrightarrow> 0 < n \<and> n \<le> length inp"
proof -
  assume a: "m_commentEnd inp = Some n"
  define ws where "ws = takeWhile is_space inp"
  from a have n: "n = length ws + 3" and t: "take 3 (drop (length ws) inp) = ''-->''"
    by (auto simp: m_commentEnd_def Let_def ws_def split: if_splits)
  from t have "length (take 3 (drop (length ws) inp)) = 3" by simp
  then have "3 \<le> length inp - length ws" by simp
  with n show ?thesis by auto
qed

lemma m_attrValue_pos: "m_attrValue inp = Some n \<Longrightarrow> 0 < n \<and> n \<le> length inp"
proof -
  assume a: "m_attrValue inp = Some n"
  define body where "body = takeWhile (\<lambda>c. c \<noteq> CHR 0x22) (drop 1 inp)"
  from a have n: "n = 1 + length body + 1"
    and t: "take 1 (drop (1 + length body) inp) = [CHR 0x22]"
    by (auto simp: m_attrValue_def Let_def body_def split: if_splits)
  from t have "1 + length body < length inp" by (rule take1_drop_lt)
  with n show ?thesis by simp
qed

lemmas matcher_pos =
  m_lit_pos m_plus_pos m_one_pos m_docType_pos m_tagOpen_pos m_tagClose_pos m_nl_pos
  m_commentEnd_pos m_attrValue_pos

lemma first_match_rules_pos:
  "first_match (rules st) inp = Some (r, n) \<Longrightarrow> 0 < n \<and> n \<le> length inp"
  by (cases st) (auto simp: mk_rule_def split: option.splits dest: matcher_pos)

function lex :: "lexer_state \<Rightarrow> lexer_state list \<Rightarrow> nat \<Rightarrow> string \<Rightarrow> token list \<times> stream_end" where
  "lex st stk off [] = ([], Eof)"
| "lex st stk off (c # cs) =
     (case first_match (rules st) (c # cs) of
        None \<Rightarrow> ([], Invalid)
      | Some (r, n) \<Rightarrow>
          (case apply_trans (r_trans r) st stk of
             (st', stk') \<Rightarrow>
               (case lex st' stk' (off + n) (drop n (c # cs)) of
                  (ts, e) \<Rightarrow> (mk_token r (take n (c # cs)) off # ts, e))))"
  by pat_completeness auto
termination
proof (relation "measure (\<lambda>(st, stk, off, inp). length inp)", goal_cases)
  case 1
  show ?case by simp
next
  case (2 st stk off c cs x2 r n st' stk')
  then have "0 < n" using first_match_rules_pos by blast
  then show ?case by simp
qed

text \<open>\<^verbatim>\<open>lexer.reset(htmlDoc)\<close>: the start state is the first one, the stack is empty, the
  index is 0. The lazy stream of tokens is the list of the tokens that \<^verbatim>\<open>next()\<close>
  returns, call after call, and how the stream ends.\<close>

definition parseHTML :: "string \<Rightarrow> token list \<times> stream_end" where
  "parseHTML htmlDoc = lex St_main [] 0 htmlDoc"

section \<open>Library functions the scanner uses\<close>

subsection \<open>Exceptions\<close>

text \<open>
  The exceptions of the model: the lexer's invalid syntax, the \<^verbatim>\<open>TypeError\<close> of reading a
  property of \<^verbatim>\<open>undefined\<close>, the \<^verbatim>\<open>ReferenceError\<close> of reading an identifier that no scope
  declares, and a file that cannot be read.
\<close>

datatype error = InvalidSyntax | TypeError | ReferenceError string | ReadError string

text \<open>
  What the next \<^verbatim>\<open>html.next()\<close> followed by a read of the token's \<^verbatim>\<open>type\<close> raises once the
  tokens are used up: at the end of the document \<^verbatim>\<open>next()\<close> returns \<^verbatim>\<open>undefined\<close> and the
  property read raises; otherwise \<^verbatim>\<open>next()\<close> itself throws.
\<close>

fun next_failure :: "stream_end \<Rightarrow> error" where
  "next_failure Eof = TypeError"
| "next_failure Invalid = InvalidSyntax"

subsection \<open>Sets\<close>

text \<open>A JavaScript \<^verbatim>\<open>Set\<close> keeps its elements in the order of their first insertion:
  a list without repetition. \<^verbatim>\<open>Array.from\<close> of the set is that list.\<close>

definition set_add :: "'a list \<Rightarrow> 'a \<Rightarrow> 'a list" where
  "set_add xs x = (if x \<in> set xs then xs else xs @ [x])"

subsection \<open>Paths (Node's \<^verbatim>\<open>path\<close> module, POSIX)\<close>

type_synonym path = string

text \<open>The segments between the slashes.\<close>

fun split_slash :: "string \<Rightarrow> string list" where
  "split_slash [] = [[]]"
| "split_slash (c # cs) =
     (if c = CHR ''/'' then [] # split_slash cs
      else (case split_slash cs of [] \<Rightarrow> [[c]] | s # ss \<Rightarrow> (c # s) # ss))"

fun join_slash :: "string list \<Rightarrow> string" where
  "join_slash [] = []"
| "join_slash [s] = s"
| "join_slash (s # t # ss) = s @ ''/'' @ join_slash (t # ss)"

text \<open>Empty segments and \<^verbatim>\<open>.\<close> are dropped; \<^verbatim>\<open>..\<close> removes the segment before it, and
  is kept where there is none and the path is relative. The second argument holds the
  segments kept so far, the last one first.\<close>

fun norm_segs :: "bool \<Rightarrow> string list \<Rightarrow> string list \<Rightarrow> string list" where
  "norm_segs allowAboveRoot acc [] = rev acc"
| "norm_segs allowAboveRoot acc (s # ss) =
     (if s = [] \<or> s = ''.'' then norm_segs allowAboveRoot acc ss
      else if s = ''..'' then
        (case acc of
           [] \<Rightarrow> norm_segs allowAboveRoot (if allowAboveRoot then [''..''] else []) ss
         | a # as \<Rightarrow>
             if a = ''..'' then norm_segs allowAboveRoot (if allowAboveRoot then ''..'' # acc else acc) ss
             else norm_segs allowAboveRoot as ss)
      else norm_segs allowAboveRoot (s # acc) ss)"

definition path_normalize :: "path \<Rightarrow> path" where
  "path_normalize p =
     (if p = [] then ''.''
      else
        (let isAbsolute = (hd p = CHR ''/'');
             trailingSeparator = (last p = CHR ''/'');
             q = join_slash (norm_segs (\<not> isAbsolute) [] (split_slash p))
         in if q = [] then (if isAbsolute then ''/'' else if trailingSeparator then ''./'' else ''.'')
            else (if isAbsolute then ''/'' else []) @ q @ (if trailingSeparator then ''/'' else [])))"

text \<open>\<^verbatim>\<open>path.join(a, b)\<close>\<close>

definition path_join :: "path \<Rightarrow> path \<Rightarrow> path" where
  "path_join a b =
     (let parts = filter (\<lambda>x. x \<noteq> []) [a, b]
      in if parts = [] then ''.'' else path_normalize (join_slash parts))"

text \<open>\<^verbatim>\<open>path.dirname(p)\<close>: the path up to the slash before the last segment; slashes that
  end the path do not count, and the character at index 0 is not looked at.\<close>

definition path_dirname :: "path \<Rightarrow> path" where
  "path_dirname p =
     (if p = [] then ''.''
      else
        (let hasRoot = (hd p = CHR ''/'');
             r = dropWhile (\<lambda>c. c \<noteq> CHR ''/'') (dropWhile (\<lambda>c. c = CHR ''/'') (rev (tl p)));
             endIdx = length r
         in if r = [] then (if hasRoot then ''/'' else ''.'')
            else if hasRoot \<and> endIdx = 1 then ''//''
            else take endIdx p))"

section \<open>The import scanner: \<^verbatim>\<open>scanHTML\<close>\<close>

text \<open>The three sets of one HTML file.\<close>

record deps =
  entry :: "path list"
  css :: "path list"
  js :: "path list"

text \<open>
  \<^verbatim>\<open>let attrStart = html.next();\<close>
  \<^verbatim>\<open>while (attrStart.type !== 'attrName' && attrStart.value !== name) attrStart = html.next();\<close>
  The result is the stream after \<^verbatim>\<open>attrStart\<close>.
\<close>

fun find_attrStart :: "string \<Rightarrow> stream_end \<Rightarrow> token list \<Rightarrow> error + token list" where
  "find_attrStart name e [] = Inl (next_failure e)"
| "find_attrStart name e (attrStart # ts) =
     (if tk_type attrStart \<noteq> AttrName \<and> tk_value attrStart \<noteq> name
      then find_attrStart name e ts else Inr ts)"

text \<open>
  \<^verbatim>\<open>let href = html.next();\<close>
  \<^verbatim>\<open>while (href.type !== 'attrValue') href = html.next();\<close>
  The result is the token found and the stream after it.
\<close>

fun find_attrValue :: "stream_end \<Rightarrow> token list \<Rightarrow> error + (token \<times> token list)" where
  "find_attrValue e [] = Inl (next_failure e)"
| "find_attrValue e (href # ts) =
     (if tk_type href \<noteq> AttrValue then find_attrValue e ts else Inr (href, ts))"

text \<open>\<^verbatim>\<open>.replace(/^"/, '').replace(/"$/, '')\<close>\<close>

definition unquote :: "string \<Rightarrow> string" where
  "unquote v =
     (let v1 = (case v of [] \<Rightarrow> [] | c # cs \<Rightarrow> if c = CHR 0x22 then cs else v)
      in if v1 \<noteq> [] \<and> last v1 = CHR 0x22 then butlast v1 else v1)"

text \<open>\<^verbatim>\<open>href[0] === '/' ? path.join(buildDirectory, href) : path.join(path.dirname(file), href)\<close>\<close>

definition resolve :: "path \<Rightarrow> path \<Rightarrow> string \<Rightarrow> path" where
  "resolve buildDirectory file href =
     (if take 1 href = ''/'' then path_join buildDirectory href
      else path_join (path_dirname file) href)"

text \<open>The two inner loops and the unquoting, as both branches of the walk run them: the
  value found and the stream after it.\<close>

definition scan_attr :: "string \<Rightarrow> stream_end \<Rightarrow> token list \<Rightarrow> error + (string \<times> token list)" where
  "scan_attr name e ts =
     (case find_attrStart name e ts of
        Inl x \<Rightarrow> Inl x
      | Inr ts1 \<Rightarrow>
          (case find_attrValue e ts1 of
             Inl x \<Rightarrow> Inl x
           | Inr (href, ts2) \<Rightarrow> Inr (unquote (tk_value href), ts2)))"

text \<open>The branch \<^verbatim>\<open>if (node.type === 'tagOpen' && node.value === '<link')\<close>.\<close>

definition link_branch ::
  "path \<Rightarrow> path \<Rightarrow> stream_end \<Rightarrow> token \<Rightarrow> token list \<Rightarrow> deps \<Rightarrow> error + (token list \<times> deps)" where
  "link_branch buildDirectory file e node ts acc =
     (if tk_type node = TagOpen \<and> tk_value node = ''<link'' then
        (case scan_attr ''href'' e ts of
           Inl x \<Rightarrow> Inl x
         | Inr (href, ts') \<Rightarrow>
             Inr (ts', acc\<lparr>css := set_add (css acc) (resolve buildDirectory file href)\<rparr>))
      else Inr (ts, acc))"

text \<open>The branch \<^verbatim>\<open>if (node.type === 'tagOpen' && node.value === '<script')\<close>.\<close>

definition script_branch ::
  "path \<Rightarrow> path \<Rightarrow> stream_end \<Rightarrow> token \<Rightarrow> token list \<Rightarrow> deps \<Rightarrow> error + (token list \<times> deps)" where
  "script_branch buildDirectory file e node ts acc =
     (if tk_type node = TagOpen \<and> tk_value node = ''<script'' then
        (case scan_attr ''src'' e ts of
           Inl x \<Rightarrow> Inl x
         | Inr (src, ts') \<Rightarrow>
             Inr (ts', acc\<lparr>js := set_add (js acc) (resolve buildDirectory file src),
                           entry := set_add (entry acc) (resolve buildDirectory file src)\<rparr>))
      else Inr (ts, acc))"

lemma find_attrStart_length: "find_attrStart name e ts = Inr ts' \<Longrightarrow> length ts' < length ts"
  by (induction ts) (auto split: if_splits)

lemma find_attrValue_length: "find_attrValue e ts = Inr (t, ts') \<Longrightarrow> length ts' < length ts"
  by (induction ts) (auto split: if_splits)

lemma scan_attr_length: "scan_attr name e ts = Inr (v, ts') \<Longrightarrow> length ts' < length ts"
  by (auto simp: scan_attr_def split: sum.splits prod.splits
      dest!: find_attrStart_length find_attrValue_length)

lemma link_branch_length:
  "link_branch bd file e node ts acc = Inr (ts', acc') \<Longrightarrow> length ts' \<le> length ts"
  by (auto simp: link_branch_def split: if_splits sum.splits prod.splits dest!: scan_attr_length)

lemma script_branch_length:
  "script_branch bd file e node ts acc = Inr (ts', acc') \<Longrightarrow> length ts' \<le> length ts"
  by (auto simp: script_branch_def split: if_splits sum.splits prod.splits dest!: scan_attr_length)

text \<open>
  The walk \<^verbatim>\<open>while (node) { ... node = html.next(); }\<close>: the head of the list is \<^verbatim>\<open>node\<close>.
  When the tokens are used up, \<^verbatim>\<open>next()\<close> returns \<^verbatim>\<open>undefined\<close> and the walk ends, or throws.
\<close>

function walk :: "path \<Rightarrow> path \<Rightarrow> stream_end \<Rightarrow> token list \<Rightarrow> deps \<Rightarrow> error + deps" where
  "walk buildDirectory file e [] acc = (case e of Eof \<Rightarrow> Inr acc | Invalid \<Rightarrow> Inl InvalidSyntax)"
| "walk buildDirectory file e (node # ts) acc =
     (case link_branch buildDirectory file e node ts acc of
        Inl x \<Rightarrow> Inl x
      | Inr (ts1, acc1) \<Rightarrow>
          (case script_branch buildDirectory file e node ts1 acc1 of
             Inl x \<Rightarrow> Inl x
           | Inr (ts2, acc2) \<Rightarrow> walk buildDirectory file e ts2 acc2))"
  by pat_completeness auto
termination
proof (relation "measure (\<lambda>(bd, file, e, ts, acc). length ts)", goal_cases)
  case 1
  show ?case by simp
next
  case (2 bd fl e node ts acc x2 ts1 acc1 y2 ts2 acc2)
  then have "length ts1 \<le> length ts" and "length ts2 \<le> length ts1"
    using link_branch_length script_branch_length by metis+
  then show ?case by simp
qed

subsection \<open>The transitive scan of the JS imports\<close>

text \<open>
  The static imports of the JS files of the build, already resolved to paths: what the
  external static-import extractor returns for each file. A file without an entry (a
  file that cannot be read, or one that imports nothing) has no imports.
\<close>

type_synonym import_graph = "(path \<times> path list) list"

definition static_imports :: "import_graph \<Rightarrow> path \<Rightarrow> path list" where
  "static_imports g file = (case map_of g file of None \<Rightarrow> [] | Some is \<Rightarrow> is)"

lemma static_imports_outside: "file \<notin> fst ` set g \<Longrightarrow> static_imports g file = []"
  by (simp add: static_imports_def map_of_eq_None_iff[THEN iffD2])

text \<open>
  Modelled from the spec: \<^verbatim>\<open>scanJS\<close> of \<^verbatim>\<open>lib/js.js\<close>, which is not among the sources. The
  spec: for every path in \<^verbatim>\<open>js\<close>, recursively extract its static import specifiers and
  union the results into \<^verbatim>\<open>js\<close>, using the Scanned-Files Set to avoid re-visiting a file
  and to terminate on cycles. The files still to visit are a stack; a file already in
  \<^verbatim>\<open>scannedFiles\<close> is passed over, any other is marked as scanned, its imports join
  \<^verbatim>\<open>importList\<close> and are visited next. The result is the two sets as the call leaves them.
\<close>

function scanJS_visit ::
  "import_graph \<Rightarrow> path list \<Rightarrow> path list \<Rightarrow> path list \<Rightarrow> path list \<times> path list" where
  "scanJS_visit g [] scannedFiles importList = (scannedFiles, importList)"
| "scanJS_visit g (file # pending) scannedFiles importList =
     (if file \<in> set scannedFiles then scanJS_visit g pending scannedFiles importList
      else scanJS_visit g (static_imports g file @ pending) (set_add scannedFiles file)
             (foldl set_add importList (static_imports g file)))"
  by pat_completeness auto
termination
proof (relation "measures [\<lambda>(g, pending, scannedFiles, importList). card (fst ` set g - set scannedFiles),
                           \<lambda>(g, pending, scannedFiles, importList). length pending]", goal_cases)
  case 1
  show ?case by simp
next
  case (2 g fl pending scannedFiles importList)
  then show ?case by simp
next
  case (3 g fl pending scannedFiles importList)
  show ?case
  proof (cases "fl \<in> fst ` set g")
    case True
    with 3 have "fst ` set g - set (set_add scannedFiles fl) \<subset> fst ` set g - set scannedFiles"
      by (auto simp: set_add_def)
    then have "card (fst ` set g - set (set_add scannedFiles fl)) < card (fst ` set g - set scannedFiles)"
      by (intro psubset_card_mono) auto
    then show ?thesis by simp
  next
    case False
    with 3 have "fst ` set g - set (set_add scannedFiles fl) = fst ` set g - set scannedFiles"
      by (auto simp: set_add_def)
    with False show ?thesis by (simp add: static_imports_outside)
  qed
qed

definition scanJS :: "import_graph \<Rightarrow> path \<Rightarrow> path list \<Rightarrow> path list \<Rightarrow> path list \<times> path list" where
  "scanJS g file scannedFiles importList = scanJS_visit g [file] scannedFiles importList"

lemma scanJS_visit_mono:
  "scanJS_visit g pending sc il = (sc', il') \<Longrightarrow> set sc \<subseteq> set sc'"
  by (induction g pending sc il rule: scanJS_visit.induct)
     (auto simp: set_add_def split: if_splits)

lemma scanJS_visit_same:
  "scanJS_visit g pending sc il = (sc', il') \<Longrightarrow>
   fst ` set g - set sc' = fst ` set g - set sc \<Longrightarrow> il' = il"
proof (induction g pending sc il rule: scanJS_visit.induct)
  case (1 g scannedFiles importList)
  then show ?case by simp
next
  case (2 g fl pending scannedFiles importList)
  show ?case
  proof (cases "fl \<in> set scannedFiles")
    case True
    with 2 show ?thesis by simp
  next
    case False
    with 2(3) have r: "scanJS_visit g (static_imports g fl @ pending) (set_add scannedFiles fl)
        (foldl set_add importList (static_imports g fl)) = (sc', il')"
      by simp
    from scanJS_visit_mono[OF r] have "fl \<in> set sc'"
      by (auto simp: set_add_def split: if_splits)
    with 2(4) False have out: "fl \<notin> fst ` set g" by blast
    then have "fst ` set g - set (set_add scannedFiles fl) = fst ` set g - set scannedFiles"
      by (auto simp: set_add_def)
    with 2(4) have "fst ` set g - set sc' = fst ` set g - set (set_add scannedFiles fl)" by simp
    from 2(2)[OF False r this] out show ?thesis by (simp add: static_imports_outside)
  qed
qed

text \<open>\<^verbatim>\<open>xs.forEach((i) => s.add(i))\<close>\<close>

definition add_all :: "'a list \<Rightarrow> 'a list \<Rightarrow> 'a list" where
  "add_all s xs = foldl set_add s xs"

lemma add_all_subset: "set xs \<subseteq> set s \<Longrightarrow> add_all s xs = s"
  unfolding add_all_def by (induction xs) (auto simp: set_add_def)

text \<open>
  \<^verbatim>\<open>allJSImports.forEach((file) => { scanJS({file, rootDir: buildDirectory, scannedFiles,\<close>
  \<^verbatim>\<open>importList: allJSImports}).forEach((i) => allJSImports.add(i)); });\<close>
  \<^verbatim>\<open>Set.prototype.forEach\<close> visits the elements in insertion order, those added during the
  visit too: \<^verbatim>\<open>i\<close> is the position of the element visited next.
\<close>

function forEach_scanJS :: "import_graph \<Rightarrow> nat \<Rightarrow> path list \<Rightarrow> path list \<Rightarrow> path list" where
  "forEach_scanJS g i scannedFiles allJSImports =
     (if i < length allJSImports then
        (case scanJS g (allJSImports ! i) scannedFiles allJSImports of
           (scannedFiles', importList') \<Rightarrow>
             forEach_scanJS g (Suc i) scannedFiles' (add_all importList' importList'))
      else allJSImports)"
  by pat_completeness auto
termination
proof (relation "measures [\<lambda>(g, i, scannedFiles, allJSImports). card (fst ` set g - set scannedFiles),
                           \<lambda>(g, i, scannedFiles, allJSImports). length allJSImports - i]", goal_cases)
  case 1
  show ?case by simp
next
  case (2 g i scannedFiles allJSImports sc' il')
  then have r: "scanJS_visit g [allJSImports ! i] scannedFiles allJSImports = (sc', il')"
    by (simp add: scanJS_def)
  have sub: "fst ` set g - set sc' \<subseteq> fst ` set g - set scannedFiles"
    using scanJS_visit_mono[OF r] by auto
  show ?case
  proof (cases "fst ` set g - set sc' = fst ` set g - set scannedFiles")
    case True
    with scanJS_visit_same[OF r] have "il' = allJSImports" by simp
    with True 2(1) show ?thesis by (simp add: add_all_subset)
  next
    case False
    with sub have "fst ` set g - set sc' \<subset> fst ` set g - set scannedFiles" by blast
    then have "card (fst ` set g - set sc') < card (fst ` set g - set scannedFiles)"
      by (intro psubset_card_mono) auto
    then show ?thesis by simp
  qed
qed

declare forEach_scanJS.simps [simp del]

subsection \<open>One HTML file, and all of them\<close>

definition scanHTML_file :: "import_graph \<Rightarrow> path \<Rightarrow> path \<Rightarrow> string \<Rightarrow> error + deps" where
  "scanHTML_file g buildDirectory file code =
     (case parseHTML code of
        (ts, e) \<Rightarrow>
          (case walk buildDirectory file e ts \<lparr>entry = [], css = [], js = []\<rparr> of
             Inl x \<Rightarrow> Inl x
           | Inr acc \<Rightarrow> Inr (acc\<lparr>js := forEach_scanJS g 0 [] (js acc)\<rparr>)))"

text \<open>
  The body of the function mapped over \<^verbatim>\<open>htmlFiles\<close>, for one file: the files of the build
  are a map from paths to contents, and \<^verbatim>\<open>readFile\<close> fails on a path outside it.
\<close>

definition scan_one :: "(path \<rightharpoonup> string) \<Rightarrow> import_graph \<Rightarrow> path \<Rightarrow> path \<Rightarrow> error + deps" where
  "scan_one files g buildDirectory file =
     (case files file of
        None \<Rightarrow> Inl (ReadError file)
      | Some code \<Rightarrow> scanHTML_file g buildDirectory file code)"

text \<open>
  \<^verbatim>\<open>scanHTML(htmlFiles, buildDirectory)\<close>: when every file succeeds, the result maps each
  file to its three sets. When files fail, the promise of \<^verbatim>\<open>Promise.all\<close> is rejected with
  the failure that happens first in time; which one that is depends on the timing of
  the reads, which the model does not tell: the result is then the set of the failures
  of the files, and the reason of the rejection is one of its members.
\<close>

fun scanHTML ::
  "(path \<rightharpoonup> string) \<Rightarrow> import_graph \<Rightarrow> path list \<Rightarrow> path \<Rightarrow> error set + (path \<rightharpoonup> deps)" where
  "scanHTML files g [] buildDirectory = Inr Map.empty"
| "scanHTML files g (file # htmlFiles) buildDirectory =
     (case scan_one files g buildDirectory file of
        Inl x \<Rightarrow>
          (case scanHTML files g htmlFiles buildDirectory of
             Inl xs \<Rightarrow> Inl (insert x xs)
           | Inr importList \<Rightarrow> Inl {x})
      | Inr d \<Rightarrow>
          (case scanHTML files g htmlFiles buildDirectory of
             Inl xs \<Rightarrow> Inl xs
           | Inr importList \<Rightarrow> Inr (importList(file \<mapsto> d))))"

section \<open>The document rewriter: \<^verbatim>\<open>injectHTML\<close>\<close>

text \<open>
  Modelled from the spec: \<^verbatim>\<open>insert\<close> of \<^verbatim>\<open>util.js\<close>, which is not among the sources. The
  spec has the rewriter insert text at a position of the document: the content goes
  between the characters before the index and those from the index on.
\<close>

definition insert_at :: "string \<Rightarrow> string \<Rightarrow> nat \<Rightarrow> string" where
  "insert_at str content index = take index str @ content @ drop index str"

text \<open>An option of \<^verbatim>\<open>injectHTML\<close> counts when it is given and is not the empty string.\<close>

fun truthy :: "string option \<Rightarrow> bool" where
  "truthy None = False"
| "truthy (Some s) = (s \<noteq> [])"

text \<open>\<^verbatim>\<open>`${indent[0] === ' ' ? indent + '  ' : indent + '\t'}${headEnd}\n`\<close>\<close>

definition insertion :: "string \<Rightarrow> string \<Rightarrow> string" where
  "insertion indent content =
     (if take 1 indent = '' '' then indent @ ''  '' else indent @ [CHR 0x09]) @ content @ [CHR 0x0A]"

text \<open>One of the two branches on a closing tag: the new \<^verbatim>\<open>code\<close> and \<^verbatim>\<open>charOffset\<close>.\<close>

definition inject_branch ::
  "string option \<Rightarrow> string \<Rightarrow> token \<Rightarrow> string \<Rightarrow> string \<times> nat \<Rightarrow> string \<times> nat" where
  "inject_branch content closing node indent st =
     (case st of
        (code, charOffset) \<Rightarrow>
          if truthy content \<and> tk_type node = TagClose \<and> tk_value node = closing then
            (insert_at code (insertion indent (the content)) (tk_offset node + charOffset),
             charOffset + length (insertion indent (the content)))
          else (code, charOffset))"

text \<open>The loop over the tokens: the state is \<^verbatim>\<open>code\<close>, \<^verbatim>\<open>indent\<close> and \<^verbatim>\<open>charOffset\<close>.\<close>

fun inject_walk ::
  "string option \<Rightarrow> string option \<Rightarrow> token list \<Rightarrow> string \<Rightarrow> string \<Rightarrow> nat \<Rightarrow> string" where
  "inject_walk headEnd bodyEnd [] code indent charOffset = code"
| "inject_walk headEnd bodyEnd (node # ts) code indent charOffset =
     (let indent1 = (if tk_type node = Indent then tk_value node else indent)
      in case inject_branch bodyEnd ''</body>'' node indent1
                (inject_branch headEnd ''</head>'' node indent1 (code, charOffset)) of
           (code2, charOffset2) \<Rightarrow> inject_walk headEnd bodyEnd ts code2 indent1 charOffset2)"

definition injectHTML :: "string \<Rightarrow> string option \<Rightarrow> string option \<Rightarrow> error + string" where
  "injectHTML htmlDoc headEnd bodyEnd =
     (case parseHTML htmlDoc of
        (ts, e) \<Rightarrow>
          (case e of
             Eof \<Rightarrow> Inr (inject_walk headEnd bodyEnd ts htmlDoc [] 0)
           | Invalid \<Rightarrow> Inl InvalidSyntax))"

section \<open>The preload planner: \<^verbatim>\<open>preloadJS\<close>\<close>

definition is_tag_end :: "token \<Rightarrow> bool" where
  "is_tag_end node = (tk_type node = TagEnd \<or> tk_type node = TagSelfClose)"

text \<open>
  \<^verbatim>\<open>while (node.type !== 'attrValue') { node = html.next();\<close>
  \<^verbatim>\<open>if (node.type === 'tagEnd' || node.type === 'tagSelfClose') break; }\<close>
  entered with \<^verbatim>\<open>node\<close> an \<^verbatim>\<open>attrName\<close> token: the last \<^verbatim>\<open>node\<close> and the stream after it.
\<close>

fun until_attrValue :: "stream_end \<Rightarrow> token list \<Rightarrow> error + (token \<times> token list)" where
  "until_attrValue e [] = Inl (next_failure e)"
| "until_attrValue e (node # ts) =
     (if is_tag_end node then Inr (node, ts)
      else if tk_type node \<noteq> AttrValue then until_attrValue e ts
      else Inr (node, ts))"

text \<open>
  The body of \<^verbatim>\<open>if (node.type === 'attrName') { ... }\<close> inside the loop over the attributes
  of a script tag: \<^verbatim>\<open>node\<close>, \<^verbatim>\<open>src\<close>, \<^verbatim>\<open>type\<close> and the stream after it.
\<close>

definition attr_branch ::
  "stream_end \<Rightarrow> token \<Rightarrow> token list \<Rightarrow> string \<Rightarrow> string \<Rightarrow> error + (token \<times> string \<times> string \<times> token list)" where
  "attr_branch e node ts src type =
     (if tk_type node = AttrName then
        (if tk_value node = ''src'' then
           (case until_attrValue e ts of
              Inl x \<Rightarrow> Inl x
            | Inr (node', ts') \<Rightarrow> Inr (node', tk_value node', type, ts'))
         else if tk_value node = ''type'' then
           (case until_attrValue e ts of
              Inl x \<Rightarrow> Inl x
            | Inr (node', ts') \<Rightarrow> Inr (node', src, tk_value node', ts'))
         else Inr (node, src, type, ts))
      else Inr (node, src, type, ts))"

lemma until_attrValue_length: "until_attrValue e ts = Inr (n, ts') \<Longrightarrow> length ts' < length ts"
  by (induction ts) (auto split: if_splits)

lemma attr_branch_length:
  "attr_branch e node ts src type = Inr (node', src', type', ts') \<Longrightarrow> length ts' \<le> length ts"
  by (auto simp: attr_branch_def split: if_splits sum.splits prod.splits
      dest!: until_attrValue_length)

text \<open>
  \<^verbatim>\<open>while (!src && !type) { node = html.next(); if (node.type === 'attrName') { ... }\<close>
  \<^verbatim>\<open>if (node.type === 'tagEnd' || node.type === 'tagSelfClose') break; }\<close>
\<close>

function script_attrs ::
  "stream_end \<Rightarrow> string \<Rightarrow> string \<Rightarrow> token list \<Rightarrow> error + (string \<times> string \<times> token list)" where
  "script_attrs e src type ts =
     (if src = [] \<and> type = [] then
        (case ts of
           [] \<Rightarrow> Inl (next_failure e)
         | node # ts1 \<Rightarrow>
             (case attr_branch e node ts1 src type of
                Inl x \<Rightarrow> Inl x
              | Inr (node', src', type', ts2) \<Rightarrow>
                  if is_tag_end node' then Inr (src', type', ts2)
                  else script_attrs e src' type' ts2))
      else Inr (src, type, ts))"
  by pat_completeness auto
termination
proof (relation "measure (\<lambda>(e, src, type, ts). length ts)", goal_cases)
  case 1
  show ?case by simp
next
  case (2 e src type ts node ts1 x2 node' y src' z type' ts2)
  then have "attr_branch e node ts1 src type = Inr (node', src', type', ts2)" by simp
  then have "length ts2 \<le> length ts1" by (rule attr_branch_length)
  with 2 show ?case by auto
qed

declare script_attrs.simps [simp del]

text \<open>
  The walk over the tokens (step 1). After the attributes of a script tag,
  \<^verbatim>\<open>if (src && type == '"module"') { src = src.value.replace(...) ... }\<close> reads the property
  \<^verbatim>\<open>value\<close> of the string \<^verbatim>\<open>src\<close>, which is \<^verbatim>\<open>undefined\<close>, and calls \<^verbatim>\<open>replace\<close> on it: a
  \<^verbatim>\<open>TypeError\<close>, before anything is added to \<^verbatim>\<open>originalEntries\<close>. The walk returns
  \<^verbatim>\<open>originalEntries\<close>.
\<close>

function preload_walk :: "stream_end \<Rightarrow> token list \<Rightarrow> path list \<Rightarrow> error + path list" where
  "preload_walk e [] originalEntries =
     (case e of Eof \<Rightarrow> Inr originalEntries | Invalid \<Rightarrow> Inl InvalidSyntax)"
| "preload_walk e (node # ts) originalEntries =
     (if tk_type node = TagOpen \<and> tk_value node = ''<script'' then
        (case script_attrs e [] [] ts of
           Inl x \<Rightarrow> Inl x
         | Inr (src, type, ts') \<Rightarrow>
             if src \<noteq> [] \<and> type = [CHR 0x22] @ ''module'' @ [CHR 0x22] then Inl TypeError
             else preload_walk e ts' originalEntries)
      else preload_walk e ts originalEntries)"
  by pat_completeness auto

lemma script_attrs_length:
  "script_attrs e src type ts = Inr (src', type', ts') \<Longrightarrow> length ts' \<le> length ts"
proof (induction e src type ts rule: script_attrs.induct)
  case (1 e src type ts)
  from 1(2) have u:
    "(if src = [] \<and> type = [] then
        (case ts of
           [] \<Rightarrow> Inl (next_failure e)
         | node # ts1 \<Rightarrow>
             (case attr_branch e node ts1 src type of
                Inl x \<Rightarrow> Inl x
              | Inr (node', src', type', ts2) \<Rightarrow>
                  if is_tag_end node' then Inr (src', type', ts2)
                  else script_attrs e src' type' ts2))
      else Inr (src, type, ts)) = Inr (src', type', ts')"
    by (subst (asm) script_attrs.simps)
  show ?case
  proof (cases "src = [] \<and> type = []")
    case False
    with u show ?thesis by auto
  next
    case True
    note T = True
    show ?thesis
    proof (cases ts)
      case Nil
      with u T show ?thesis by simp
    next
      case (Cons node ts1)
      show ?thesis
      proof (cases "attr_branch e node ts1 src type")
        case (Inl x)
        with u T Cons show ?thesis by simp
      next
        case (Inr r)
        obtain node' src1 type1 ts2 where r: "r = (node', src1, type1, ts2)" by (cases r) auto
        from Inr r have le: "length ts2 \<le> length ts1" using attr_branch_length by blast
        show ?thesis
        proof (cases "is_tag_end node'")
          case True
          with u T Cons Inr r le show ?thesis by auto
        next
          case False
          with u T Cons Inr r have "script_attrs e src1 type1 ts2 = Inr (src', type', ts')"
            by simp
          then have "length ts' \<le> length ts2"
            by (rule 1(1)[OF T Cons Inr r[symmetric] refl refl False])
          with le Cons show ?thesis by simp
        qed
      qed
    qed
  qed
qed

termination preload_walk
  by (relation "measure (\<lambda>(e, ts, originalEntries). length ts)")
     (auto dest!: script_attrs_length simp: less_Suc_eq_le)

text \<open>
  Step 2: \<^verbatim>\<open>originalEntries.forEach((entry) => { scanJS({file: entry, rootDir, scannedFiles,\<close>
  \<^verbatim>\<open>importList: allModules}).forEach((file) => allModules.add(file)); });\<close>
\<close>

fun scan_entries :: "import_graph \<Rightarrow> path list \<Rightarrow> path list \<Rightarrow> path list \<Rightarrow> path list" where
  "scan_entries g [] scannedFiles allModules = allModules"
| "scan_entries g (file # entries) scannedFiles allModules =
     (case scanJS g file scannedFiles allModules of
        (scannedFiles', importList') \<Rightarrow>
          scan_entries g entries scannedFiles' (add_all importList' importList'))"

text \<open>
  \<^verbatim>\<open>preloadJS({code, rootDir, htmlFile, preloadCSS})\<close>. Step 3 is
  \<^verbatim>\<open>if (cssName) headHTML += ...\<close>: no scope of the module declares \<^verbatim>\<open>cssName\<close>, and reading
  it raises a \<^verbatim>\<open>ReferenceError\<close>. The statements after it (step 4 and the call of
  \<^verbatim>\<open>injectHTML\<close>) are never reached.
\<close>

definition preloadJS :: "import_graph \<Rightarrow> string \<Rightarrow> path \<Rightarrow> path \<Rightarrow> bool \<Rightarrow> error + string" where
  "preloadJS g code rootDir htmlFile preloadCSS =
     (case parseHTML code of
        (ts, e) \<Rightarrow>
          (case preload_walk e ts [] of
             Inl x \<Rightarrow> Inl x
           | Inr originalEntries \<Rightarrow>
               (let allModules = scan_entries g originalEntries [] []
                in Inl (ReferenceError ''cssName''))))"

text \<open>
  The list of step 4, as its three lines compute it from the two sets:
  \<^verbatim>\<open>[...allModules].filter((m) => !originalEntries.has(m))\<close>
  \<^verbatim>\<open>.filter((m) => preloadCSS && !m.endsWith('.css.proxy.js'))\<close>
  \<^verbatim>\<open>.map((src) => projectURL(rootDir, src))\<close>.
  \<^verbatim>\<open>projectURL\<close> is a function of \<^verbatim>\<open>util.js\<close>, which is not among the sources: a parameter.
\<close>

definition resolvedModules ::
  "(path \<Rightarrow> path \<Rightarrow> string) \<Rightarrow> path \<Rightarrow> bool \<Rightarrow> path list \<Rightarrow> path list \<Rightarrow> string list" where
  "resolvedModules projectURL rootDir preloadCSS originalEntries allModules =
     map (\<lambda>src. projectURL rootDir src)
       (filter (\<lambda>m. preloadCSS \<and> \<not> endsWith m ''.css.proxy.js'')
          (filter (\<lambda>m. m \<notin> set originalEntries) allModules))"

section \<open>The optimizer: which files get an optimize task\<close>

text \<open>
  \<^verbatim>\<open>allFiles.filter((file) => (options.preloadCSS && !file.endsWith('.css.proxy.js')) || true)\<close>:
  the files that the loop of step 3 hands to \<^verbatim>\<open>optimizeFile\<close>.
\<close>

definition optimize_filter :: "bool \<Rightarrow> path \<Rightarrow> bool" where
  "optimize_filter preloadCSS file = ((preloadCSS \<and> \<not> endsWith file ''.css.proxy.js'') \<or> True)"

definition optimized_files :: "bool \<Rightarrow> path list \<Rightarrow> path list" where
  "optimized_files preloadCSS allFiles = filter (optimize_filter preloadCSS) allFiles"

section \<open>Stating the properties\<close>

text \<open>The offsets of a list of tokens are cumulative from \<^term>\<open>off\<close>: each token starts where
  the text of the one before it ends.\<close>

fun offsets_from :: "nat \<Rightarrow> token list \<Rightarrow> bool" where
  "offsets_from off [] = True"
| "offsets_from off (t # ts) = (tk_offset t = off \<and> offsets_from (off + length (tk_text t)) ts)"

text \<open>
  The document that the rewriter is to produce, told from the tokens of the original:
  the texts of the tokens in their order, and, directly before the text of a closing
  \<^verbatim>\<open>head\<close> or \<^verbatim>\<open>body\<close> tag, the insertion made for it (with the indent seen last).
\<close>

definition inserted :: "string option \<Rightarrow> string \<Rightarrow> token \<Rightarrow> string \<Rightarrow> string" where
  "inserted content closing node indent =
     (if truthy content \<and> tk_type node = TagClose \<and> tk_value node = closing
      then insertion indent (the content) else [])"

fun spliced :: "string option \<Rightarrow> string option \<Rightarrow> string \<Rightarrow> token list \<Rightarrow> string" where
  "spliced headEnd bodyEnd indent [] = []"
| "spliced headEnd bodyEnd indent (node # ts) =
     (let indent1 = (if tk_type node = Indent then tk_value node else indent)
      in inserted headEnd ''</head>'' node indent1 @ inserted bodyEnd ''</body>'' node indent1 @
         tk_text node @ spliced headEnd bodyEnd indent1 ts)"

text \<open>The import relation of a graph: \<^term>\<open>(x, y)\<close> when the file \<^term>\<open>x\<close> imports \<^term>\<open>y\<close>.
  The files reachable from a set \<^term>\<open>S\<close> are \<^term>\<open>(import_edges g)\<^sup>* `` S\<close>.\<close>

definition import_edges :: "import_graph \<Rightarrow> (path \<times> path) set" where
  "import_edges g = {(x, y). y \<in> set (static_imports g x)}"

text \<open>The imports of every scanned file are in the import list.\<close>

definition imports_within :: "import_graph \<Rightarrow> path list \<Rightarrow> path list \<Rightarrow> bool" where
  "imports_within g sc il = (\<forall>f \<in> set sc. set (static_imports g f) \<subseteq> set il)"

text \<open>A token that opens neither a link nor a script tag: the walk of \<^verbatim>\<open>scanHTML\<close>
  passes over it.\<close>

definition inert :: "token \<Rightarrow> bool" where
  "inert t = (\<not> (tk_type t = TagOpen \<and> (tk_value t = ''<link'' \<or> tk_value t = ''<script'')))"

text \<open>The five tokens of a tag read up to the value of its first attribute, as of
  \<^verbatim>\<open><link href="/a.css"\<close>: the opening of the tag, white space, the name of the
  attribute, the equals sign, and the value in double quotes.\<close>

fun tag_tokens :: "string \<Rightarrow> string \<Rightarrow> string \<Rightarrow> token list \<Rightarrow> bool" where
  "tag_tokens tagName attr val [t0, w, n, a, v] =
     (tk_type t0 = TagOpen \<and> tk_value t0 = tagName \<and> tk_type w = TagWS \<and>
      tk_type n = AttrName \<and> tk_value n = attr \<and> tk_type a = AttrAssignment \<and>
      tk_type v = AttrValue \<and> tk_value v = [CHR 0x22] @ val @ [CHR 0x22])"
| "tag_tokens tagName attr val ts = False"

text \<open>
  Two pages with the tags \<^verbatim>\<open><link href="/a.css">\<close> and \<^verbatim>\<open><script src="/b.js">\<close>: a whole
  document with one tag on a line, and a document of one line in which the text of a
  title stands before the two tags.
\<close>

definition page_full :: string where
  "page_full = ''<!DOCTYPE html>\<newline><html>\<newline>  <head>\<newline>    <link href=\"/a.css\">\<newline>  </head>\<newline>  <body>\<newline>    <script src=\"/b.js\"></script>\<newline>  </body>\<newline></html>\<newline>''"

definition page_one_line :: string where
  "page_one_line = ''<html><head><title>T</title></head><body><link href=\"/a.css\"><script src=\"/b.js\"></script></body></html>''"

section \<open>Lemmas\<close>

subsection \<open>The tokens cover the document\<close>

lemma lex_Cons_cases:
  assumes "lex st stk off (c # cs) = (ts, e)"
  obtains (stuck) "first_match (rules st) (c # cs) = None" "ts = []" "e = Invalid"
  | (token) r n st' stk' ts' where "first_match (rules st) (c # cs) = Some (r, n)"
      "apply_trans (r_trans r) st stk = (st', stk')"
      "lex st' stk' (off + n) (drop n (c # cs)) = (ts', e)"
      "ts = mk_token r (take n (c # cs)) off # ts'"
  using assms by (auto split: option.splits prod.splits)

lemma lex_offsets: "lex st stk off inp = (ts, e) \<Longrightarrow> offsets_from off ts"
proof (induction st stk off inp arbitrary: ts e rule: lex.induct)
  case (1 st stk off)
  then show ?case by simp
next
  case (2 st stk off c cs)
  from 2(2) show ?case
  proof (cases rule: lex_Cons_cases)
    case stuck
    then show ?thesis by simp
  next
    case (token r n st' stk' ts')
    from first_match_rules_pos[OF token(1)] have n: "n \<le> length (c # cs)" by simp
    from 2(1)[OF token(1) refl token(2)[symmetric] token(3)]
    have "offsets_from (off + n) ts'" .
    with token(4) n show ?thesis by (simp add: mk_token_def min_absorb2)
  qed
qed

lemma lex_texts:
  "lex st stk off inp = (ts, e) \<Longrightarrow>
   \<exists>rest. inp = concat (map tk_text ts) @ rest \<and> (e = Eof \<longrightarrow> rest = [])"
proof (induction st stk off inp arbitrary: ts e rule: lex.induct)
  case (1 st stk off)
  then show ?case by simp
next
  case (2 st stk off c cs)
  from 2(2) show ?case
  proof (cases rule: lex_Cons_cases)
    case stuck
    then show ?thesis by simp
  next
    case (token r n st' stk' ts')
    from 2(1)[OF token(1) refl token(2)[symmetric] token(3)]
    obtain rest where r: "drop n (c # cs) = concat (map tk_text ts') @ rest" "e = Eof \<longrightarrow> rest = []"
      by blast
    have "c # cs = take n (c # cs) @ drop n (c # cs)" by simp
    with r(1) have "c # cs = concat (map tk_text ts) @ rest"
      unfolding token(4) by (simp add: mk_token_def)
    with r(2) show ?thesis by blast
  qed
qed

lemma parseHTML_roundtrip:
  "parseHTML htmlDoc = (ts, Eof) \<Longrightarrow> concat (map tk_text ts) = htmlDoc"
  unfolding parseHTML_def by (drule lex_texts) simp

lemma parseHTML_offsets: "parseHTML htmlDoc = (ts, e) \<Longrightarrow> offsets_from 0 ts"
  unfolding parseHTML_def by (rule lex_offsets)

subsection \<open>The rewriter places its insertions before the closing tags\<close>

lemma inject_branch_inserted:
  assumes "code = pre @ post" and "tk_offset node + charOffset = length pre"
  shows "inject_branch content closing node indent (code, charOffset) =
         (pre @ inserted content closing node indent @ post,
          charOffset + length (inserted content closing node indent))"
  using assms by (simp add: inject_branch_def inserted_def insert_at_def)

lemma inject_walk_spliced:
  "offsets_from off ts \<Longrightarrow> code = pre @ concat (map tk_text ts) \<Longrightarrow>
   off + charOffset = length pre \<Longrightarrow>
   inject_walk headEnd bodyEnd ts code indent charOffset = pre @ spliced headEnd bodyEnd indent ts"
proof (induction ts arbitrary: off code pre charOffset indent)
  case Nil
  then show ?case by simp
next
  case (Cons node ts)
  define indent1 where "indent1 = (if tk_type node = Indent then tk_value node else indent)"
  define hi where "hi = inserted headEnd ''</head>'' node indent1"
  define bi where "bi = inserted bodyEnd ''</body>'' node indent1"
  define post where "post = tk_text node @ concat (map tk_text ts)"
  from Cons.prems have off: "tk_offset node = off"
    and rest: "offsets_from (off + length (tk_text node)) ts" by simp_all
  have code: "code = pre @ post" using Cons.prems(2) by (simp add: post_def)
  have b1: "inject_branch headEnd ''</head>'' node indent1 (code, charOffset) =
      (pre @ hi @ post, charOffset + length hi)"
    unfolding hi_def using code off Cons.prems(3) by (intro inject_branch_inserted) simp_all
  have b2: "inject_branch bodyEnd ''</body>'' node indent1 (pre @ hi @ post, charOffset + length hi) =
      ((pre @ hi) @ bi @ post, charOffset + length hi + length bi)"
    unfolding bi_def using off Cons.prems(3) by (intro inject_branch_inserted) simp_all
  have "inject_walk headEnd bodyEnd ts ((pre @ hi) @ bi @ post) indent1 (charOffset + length hi + length bi) =
      (pre @ hi @ bi @ tk_text node) @ spliced headEnd bodyEnd indent1 ts"
    using Cons.prems(3) by (intro Cons.IH[OF rest]) (simp_all add: post_def)
  then show ?case
    by (simp add: b1 b2 Let_def indent1_def[symmetric] hi_def[symmetric] bi_def[symmetric])
qed

lemma injectHTML_spliced:
  assumes "parseHTML htmlDoc = (ts, Eof)"
  shows "injectHTML htmlDoc headEnd bodyEnd = Inr (spliced headEnd bodyEnd [] ts)"
proof -
  have "inject_walk headEnd bodyEnd ts htmlDoc [] 0 = [] @ spliced headEnd bodyEnd [] ts"
    using parseHTML_offsets[OF assms] parseHTML_roundtrip[OF assms]
    by (intro inject_walk_spliced[where off = 0]) simp_all
  with assms show ?thesis by (simp add: injectHTML_def)
qed

lemma spliced_nothing: "spliced None None indent ts = concat (map tk_text ts)"
  by (induction ts arbitrary: indent) (simp_all add: inserted_def)

subsection \<open>The failures of \<^verbatim>\<open>scanHTML\<close>\<close>

text \<open>When \<^verbatim>\<open>scanHTML\<close> is rejected, the possible reasons are the failures of its
  files, and there is at least one.\<close>

lemma scanHTML_failures:
  "scanHTML files g htmlFiles bd = Inl X \<Longrightarrow>
   X = {x. \<exists>f \<in> set htmlFiles. scan_one files g bd f = Inl x} \<and> X \<noteq> {}"
proof (induction htmlFiles arbitrary: X)
  case Nil
  then show ?case by simp
next
  case (Cons f fs)
  show ?case
  proof (cases "scanHTML files g fs bd")
    case (Inl xs)
    with Cons.IH have xs: "xs = {x. \<exists>f \<in> set fs. scan_one files g bd f = Inl x}" by simp
    show ?thesis
    proof (cases "scan_one files g bd f")
      case (Inl x)
      with Cons.prems \<open>scanHTML files g fs bd = Inl xs\<close> have "X = insert x xs" by simp
      with xs Inl show ?thesis by auto
    next
      case (Inr d)
      with Cons.prems \<open>scanHTML files g fs bd = Inl xs\<close> have "X = xs" by simp
      with xs Inr Cons.IH[OF \<open>scanHTML files g fs bd = Inl xs\<close>] show ?thesis by auto
    qed
  next
    case (Inr m)
    note rest = Inr
    have none: "\<And>f' x. f' \<in> set fs \<Longrightarrow> scan_one files g bd f' \<noteq> Inl x"
      using rest
    proof (induction fs arbitrary: m)
      case Nil
      then show ?case by simp
    next
      case (Cons a as)
      then show ?case by (auto split: sum.splits)
    qed
    show ?thesis
    proof (cases "scan_one files g bd f")
      case (Inl x)
      with Cons.prems rest have "X = {x}" by simp
      with Inl none show ?thesis by auto
    next
      case (Inr d)
      with Cons.prems rest show ?thesis by simp
    qed
  qed
qed

subsection \<open>Evaluating the scanner on a document\<close>

lemmas lexer_simps =
  parseHTML_def mk_rule_def mk_token_def m_lit_def m_plus_def m_one_def m_docType_def
  m_tagOpen_def m_tagClose_def m_nl_def m_commentEnd_def m_attrValue_def
  tag_value_def attrValue_value_def quote_start_def quote_end_def trim_def strip_space_def
  toLowerCase_def lower_char_def is_space_def is_line_terminator_def is_name_char_def
  is_indent_char_def is_tagWS_char_def charCode_def

lemmas scan_simps =
  scanHTML_file_def link_branch_def script_branch_def scan_attr_def unquote_def resolve_def
  set_add_def

lemma forEach_scanJS_Nil: "forEach_scanJS g 0 [] [] = []"
  by (subst forEach_scanJS.simps) simp

lemma forEach_scanJS_single:
  assumes "static_imports g p = []"
  shows "forEach_scanJS g 0 [] [p] = [p]"
proof -
  have "scanJS g p [] [p] = ([p], [p])"
    using assms by (simp add: scanJS_def set_add_def)
  then have "forEach_scanJS g 0 [] [p] = forEach_scanJS g (Suc 0) [p] [p]"
    by (subst forEach_scanJS.simps) (simp add: add_all_subset)
  also have "\<dots> = [p]"
    by (subst forEach_scanJS.simps) simp
  finally show ?thesis .
qed

text \<open>The walk over tokens that open no link or script tag, and over the tokens of the
  two tags.\<close>

lemma walk_inert:
  "\<forall>t \<in> set s. inert t \<Longrightarrow> walk bd f e (s @ rest) acc = walk bd f e rest acc"
proof (induction s)
  case Nil
  show ?case by simp
next
  case (Cons t s)
  then have i: "inert t" by simp
  then have "link_branch bd f e t (s @ rest) acc = Inr (s @ rest, acc)"
    by (auto simp: inert_def link_branch_def)
  moreover from i have "script_branch bd f e t (s @ rest) acc = Inr (s @ rest, acc)"
    by (auto simp: inert_def script_branch_def)
  ultimately have "walk bd f e ((t # s) @ rest) acc = walk bd f e (s @ rest) acc"
    by simp
  with Cons show ?case by simp
qed

lemma tag_tokens_cases:
  assumes "tag_tokens tagName attr val ts"
  obtains t0 w n a v where "ts = [t0, w, n, a, v]"
    "tk_type t0 = TagOpen" "tk_value t0 = tagName" "tk_type w = TagWS"
    "tk_type n = AttrName" "tk_value n = attr" "tk_type a = AttrAssignment"
    "tk_type v = AttrValue" "tk_value v = [CHR 0x22] @ val @ [CHR 0x22]"
  using assms by (cases "(tagName, attr, val, ts)" rule: tag_tokens.cases) simp_all

lemma scan_attr_tag:
  assumes "ts = [w, n, a, v]" "tk_type w = TagWS"
    "tk_type n = AttrName" "tk_value n = attr" "tk_type a = AttrAssignment"
    "tk_type v = AttrValue"
  shows "scan_attr attr e (ts @ rest) = Inr (unquote (tk_value v), rest)"
  using assms by (simp add: scan_attr_def)

lemma walk_link:
  assumes "tag_tokens ''<link'' ''href'' ''/a.css'' ts"
  shows "walk bd f e (ts @ rest) acc =
         walk bd f e rest (acc\<lparr>css := set_add (css acc) (path_join bd ''/a.css'')\<rparr>)"
proof -
  from assms obtain t0 w n a v where ts: "ts = [t0, w, n, a, v]"
    and t: "tk_type t0 = TagOpen" "tk_value t0 = ''<link''" "tk_type w = TagWS"
    "tk_type n = AttrName" "tk_value n = ''href''" "tk_type a = AttrAssignment"
    "tk_type v = AttrValue" "tk_value v = [CHR 0x22] @ ''/a.css'' @ [CHR 0x22]"
    by (rule tag_tokens_cases)
  have "scan_attr ''href'' e ([w, n, a, v] @ rest) = Inr (unquote (tk_value v), rest)"
    using t by (intro scan_attr_tag) simp_all
  then have "scan_attr ''href'' e (w # n # a # v # rest) = Inr (''/a.css'', rest)"
    using t(8) by (simp add: unquote_def)
  then show ?thesis
    using t(1,2) by (simp add: ts link_branch_def script_branch_def resolve_def)
qed

lemma walk_script:
  assumes "tag_tokens ''<script'' ''src'' ''/b.js'' ts"
  shows "walk bd f e (ts @ rest) acc =
         walk bd f e rest (acc\<lparr>js := set_add (js acc) (path_join bd ''/b.js''),
                                entry := set_add (entry acc) (path_join bd ''/b.js'')\<rparr>)"
proof -
  from assms obtain t0 w n a v where ts: "ts = [t0, w, n, a, v]"
    and t: "tk_type t0 = TagOpen" "tk_value t0 = ''<script''" "tk_type w = TagWS"
    "tk_type n = AttrName" "tk_value n = ''src''" "tk_type a = AttrAssignment"
    "tk_type v = AttrValue" "tk_value v = [CHR 0x22] @ ''/b.js'' @ [CHR 0x22]"
    by (rule tag_tokens_cases)
  have "scan_attr ''src'' e ([w, n, a, v] @ rest) = Inr (unquote (tk_value v), rest)"
    using t by (intro scan_attr_tag) simp_all
  then have "scan_attr ''src'' e (w # n # a # v # rest) = Inr (''/b.js'', rest)"
    using t(8) by (simp add: unquote_def)
  then show ?thesis
    using t(1,2) by (simp add: ts link_branch_def script_branch_def resolve_def)
qed

lemma forEach_scanJS_cycle:
  "forEach_scanJS [(b, [c]), (c, [b])] 0 [] [b] = (if b = c then [b] else [b, c])"
  apply (subst forEach_scanJS.simps)
  apply (simp add: scanJS_def static_imports_def set_add_def add_all_def)
  apply (subst forEach_scanJS.simps)
  apply (simp add: scanJS_def static_imports_def set_add_def add_all_def)
  apply (subst forEach_scanJS.simps)
  apply (simp add: scanJS_def static_imports_def set_add_def add_all_def)
  apply (subst forEach_scanJS.simps)
  apply (simp add: scanJS_def static_imports_def set_add_def add_all_def)
  done

subsection \<open>The transitive scan gives the reachable files\<close>

lemma set_set_add [simp]: "set (set_add xs x) = insert x (set xs)"
  by (auto simp: set_add_def)

lemma set_add_prefix: "\<exists>ys. set_add xs x = xs @ ys"
  by (simp add: set_add_def)

lemma set_foldl_set_add [simp]: "set (foldl set_add il xs) = set il \<union> set xs"
  by (induction xs arbitrary: il) auto

lemma foldl_set_add_prefix: "\<exists>ys. foldl set_add il xs = il @ ys"
proof (induction xs arbitrary: il)
  case Nil
  show ?case by simp
next
  case (Cons x xs)
  from Cons[of "set_add il x"] obtain zs
    where z: "foldl set_add (set_add il x) xs = set_add il x @ zs" ..
  show ?case
  proof (cases "x \<in> set il")
    case True
    with z have "foldl set_add il (x # xs) = il @ zs" by (simp add: set_add_def)
    then show ?thesis ..
  next
    case False
    with z have "foldl set_add il (x # xs) = il @ (x # zs)" by (simp add: set_add_def)
    then show ?thesis ..
  qed
qed

lemma scanJS_visit_pending:
  "scanJS_visit g pending sc il = (sc', il') \<Longrightarrow> set pending \<subseteq> set sc'"
proof (induction g pending sc il rule: scanJS_visit.induct)
  case (1 g scannedFiles importList)
  then show ?case by simp
next
  case (2 g fl pending scannedFiles importList)
  show ?case
  proof (cases "fl \<in> set scannedFiles")
    case True
    with 2 have "set pending \<subseteq> set sc'" by simp
    moreover from 2(3) True have "scanJS_visit g pending scannedFiles importList = (sc', il')" by simp
    from scanJS_visit_mono[OF this] True have "fl \<in> set sc'" by auto
    ultimately show ?thesis by simp
  next
    case False
    with 2(3) have r: "scanJS_visit g (static_imports g fl @ pending) (set_add scannedFiles fl)
        (foldl set_add importList (static_imports g fl)) = (sc', il')" by simp
    from 2(2)[OF False r] have "set pending \<subseteq> set sc'" by simp
    moreover from scanJS_visit_mono[OF r] have "fl \<in> set sc'" by auto
    ultimately show ?thesis by simp
  qed
qed

lemma scanJS_visit_prefix:
  "scanJS_visit g pending sc il = (sc', il') \<Longrightarrow> \<exists>ys. il' = il @ ys"
proof (induction g pending sc il rule: scanJS_visit.induct)
  case (1 g scannedFiles importList)
  then show ?case by simp
next
  case (2 g fl pending scannedFiles importList)
  show ?case
  proof (cases "fl \<in> set scannedFiles")
    case True
    with 2 show ?thesis by simp
  next
    case False
    with 2(3) have r: "scanJS_visit g (static_imports g fl @ pending) (set_add scannedFiles fl)
        (foldl set_add importList (static_imports g fl)) = (sc', il')" by simp
    from 2(2)[OF False r] obtain ys where "il' = foldl set_add importList (static_imports g fl) @ ys"
      by blast
    moreover obtain zs where "foldl set_add importList (static_imports g fl) = importList @ zs"
      using foldl_set_add_prefix by blast
    ultimately show ?thesis by simp
  qed
qed

lemma scanJS_visit_within:
  "scanJS_visit g pending sc il = (sc', il') \<Longrightarrow> imports_within g sc il \<Longrightarrow>
   imports_within g sc' il'"
proof (induction g pending sc il rule: scanJS_visit.induct)
  case (1 g scannedFiles importList)
  then show ?case by simp
next
  case (2 g fl pending scannedFiles importList)
  show ?case
  proof (cases "fl \<in> set scannedFiles")
    case True
    with 2 show ?thesis by simp
  next
    case False
    with 2(3) have r: "scanJS_visit g (static_imports g fl @ pending) (set_add scannedFiles fl)
        (foldl set_add importList (static_imports g fl)) = (sc', il')" by simp
    have "imports_within g (set_add scannedFiles fl) (foldl set_add importList (static_imports g fl))"
      using 2(4) by (auto simp: imports_within_def)
    from 2(2)[OF False r this] show ?thesis .
  qed
qed

lemma scanJS_visit_reach:
  "scanJS_visit g pending sc il = (sc', il') \<Longrightarrow>
   set il' \<subseteq> set il \<union> (import_edges g)\<^sup>* `` set pending"
proof (induction g pending sc il rule: scanJS_visit.induct)
  case (1 g scannedFiles importList)
  then show ?case by simp
next
  case (2 g fl pending scannedFiles importList)
  show ?case
  proof (cases "fl \<in> set scannedFiles")
    case True
    with 2 show ?thesis by auto
  next
    case False
    with 2(3) have r: "scanJS_visit g (static_imports g fl @ pending) (set_add scannedFiles fl)
        (foldl set_add importList (static_imports g fl)) = (sc', il')" by simp
    have e: "set (static_imports g fl) \<subseteq> (import_edges g)\<^sup>* `` {fl}"
      by (auto simp: import_edges_def)
    have "(import_edges g)\<^sup>* `` set (static_imports g fl) \<subseteq> (import_edges g)\<^sup>* `` {fl}"
    proof
      fix y assume "y \<in> (import_edges g)\<^sup>* `` set (static_imports g fl)"
      then obtain x where "x \<in> set (static_imports g fl)" "(x, y) \<in> (import_edges g)\<^sup>*" by auto
      moreover from this(1) have "(fl, x) \<in> import_edges g" by (simp add: import_edges_def)
      ultimately have "(fl, y) \<in> (import_edges g)\<^sup>*" by (meson converse_rtrancl_into_rtrancl)
      then show "y \<in> (import_edges g)\<^sup>* `` {fl}" by simp
    qed
    then have "(import_edges g)\<^sup>* `` (set (static_imports g fl) \<union> set pending) \<subseteq>
        (import_edges g)\<^sup>* `` ({fl} \<union> set pending)"
      by (simp only: Image_Un) blast
    moreover have "set (foldl set_add importList (static_imports g fl)) \<subseteq>
        set importList \<union> (import_edges g)\<^sup>* `` ({fl} \<union> set pending)"
      using e by (simp only: set_foldl_set_add Image_Un) blast
    moreover from 2(2)[OF False r]
    have "set il' \<subseteq> set (foldl set_add importList (static_imports g fl)) \<union>
        (import_edges g)\<^sup>* `` (set (static_imports g fl) \<union> set pending)"
      by (simp only: set_append)
    ultimately have "set il' \<subseteq> set importList \<union> (import_edges g)\<^sup>* `` ({fl} \<union> set pending)"
      by blast
    then show ?thesis by simp
  qed
qed

lemma rtrancl_image_idem_sub: "A \<subseteq> r\<^sup>* `` B \<Longrightarrow> r\<^sup>* `` A \<subseteq> r\<^sup>* `` B"
proof
  fix y assume a: "A \<subseteq> r\<^sup>* `` B" and "y \<in> r\<^sup>* `` A"
  then obtain x where "x \<in> A" "(x, y) \<in> r\<^sup>*" by auto
  moreover with a obtain b where "b \<in> B" "(b, x) \<in> r\<^sup>*" by auto
  ultimately have "(b, y) \<in> r\<^sup>*" "b \<in> B" by (auto intro: rtrancl_trans)
  then show "y \<in> r\<^sup>* `` B" by auto
qed

lemma forEach_scanJS_closure:
  "i \<le> length il \<Longrightarrow> set (take i il) \<subseteq> set sc \<Longrightarrow> imports_within g sc il \<Longrightarrow>
   (\<exists>ys. forEach_scanJS g i sc il = il @ ys) \<and>
   imports_within g (forEach_scanJS g i sc il) (forEach_scanJS g i sc il) \<and>
   set (forEach_scanJS g i sc il) \<subseteq> (import_edges g)\<^sup>* `` set il"
proof (induction g i sc il rule: forEach_scanJS.induct)
  case (1 g i sc il)
  show ?case
  proof (cases "i < length il")
    case False
    with 1(2) have i: "i = length il" by simp
    have res: "forEach_scanJS g i sc il = il"
      using False by (subst forEach_scanJS.simps) simp
    from 1(3) i have "set il \<subseteq> set sc" by simp
    with 1(4) have "imports_within g il il" by (auto simp: imports_within_def)
    with res show ?thesis by auto
  next
    case True
    obtain sc' il' where s: "scanJS g (il ! i) sc il = (sc', il')" by (cases "scanJS g (il ! i) sc il")
    then have v: "scanJS_visit g [il ! i] sc il = (sc', il')" by (simp add: scanJS_def)
    from scanJS_visit_prefix[OF v] obtain ys where ys: "il' = il @ ys" by blast
    have aa: "add_all il' il' = il'" by (simp add: add_all_subset)
    have res: "forEach_scanJS g i sc il = forEach_scanJS g (Suc i) sc' il'"
      using True s aa by (subst forEach_scanJS.simps) simp
    have p1: "Suc i \<le> length il'" using True ys by simp
    have "take (Suc i) il' = take (Suc i) il" using True ys by simp
    also have "\<dots> = take i il @ [il ! i]" using True by (simp add: take_Suc_conv_app_nth)
    finally have "set (take (Suc i) il') = set (take i il) \<union> {il ! i}" by simp
    moreover have "il ! i \<in> set sc'" using scanJS_visit_pending[OF v] by simp
    moreover have "set sc \<subseteq> set sc'" using scanJS_visit_mono[OF v] .
    ultimately have p2: "set (take (Suc i) il') \<subseteq> set sc'" using 1(3) by auto
    have p3: "imports_within g sc' il'" using scanJS_visit_within[OF v 1(4)] .
    have ih: "(\<exists>zs. forEach_scanJS g (Suc i) sc' il' = il' @ zs) \<and>
       imports_within g (forEach_scanJS g (Suc i) sc' il') (forEach_scanJS g (Suc i) sc' il') \<and>
       set (forEach_scanJS g (Suc i) sc' il') \<subseteq> (import_edges g)\<^sup>* `` set il'"
      using 1(1)[OF True s[symmetric]] aa p1 p2 p3 by simp
    have "il ! i \<in> set il" using True by simp
    then have "(import_edges g)\<^sup>* `` {il ! i} \<subseteq> (import_edges g)\<^sup>* `` set il" by auto
    with scanJS_visit_reach[OF v] have "set il' \<subseteq> (import_edges g)\<^sup>* `` set il" by auto
    then have "(import_edges g)\<^sup>* `` set il' \<subseteq> (import_edges g)\<^sup>* `` set il"
      by (rule rtrancl_image_idem_sub)
    with ih have "set (forEach_scanJS g (Suc i) sc' il') \<subseteq> (import_edges g)\<^sup>* `` set il"
      by blast
    moreover from ih ys obtain zs where "forEach_scanJS g (Suc i) sc' il' = il @ ys @ zs" by auto
    ultimately show ?thesis using ih res by simp
  qed
qed

lemma forEach_scanJS_reachable:
  "set (forEach_scanJS g 0 [] seeds) = (import_edges g)\<^sup>* `` set seeds"
proof
  show "set (forEach_scanJS g 0 [] seeds) \<subseteq> (import_edges g)\<^sup>* `` set seeds"
    using forEach_scanJS_closure[of 0 seeds "[]" g] by (simp add: imports_within_def)
next
  let ?res = "forEach_scanJS g 0 [] seeds"
  from forEach_scanJS_closure[of 0 seeds "[]" g]
  have pre: "set seeds \<subseteq> set ?res" and cl: "imports_within g ?res ?res"
    by (auto simp: imports_within_def)
  show "(import_edges g)\<^sup>* `` set seeds \<subseteq> set ?res"
  proof
    fix y assume "y \<in> (import_edges g)\<^sup>* `` set seeds"
    then obtain x where x: "x \<in> set seeds" and xy: "(x, y) \<in> (import_edges g)\<^sup>*" by auto
    from xy show "y \<in> set ?res"
    proof (induction rule: rtrancl_induct)
      case base
      with x pre show ?case by auto
    next
      case (step y z)
      then show ?case using cl by (auto simp: imports_within_def import_edges_def)
    qed
  qed
qed

subsection \<open>The exceptions of the preload planner\<close>

lemma until_attrValue_error: "until_attrValue e ts = Inl x \<Longrightarrow> x = next_failure e"
  by (induction ts) (auto split: if_splits)

lemma attr_branch_error: "attr_branch e node ts src type = Inl x \<Longrightarrow> x = next_failure e"
  by (auto simp: attr_branch_def split: if_splits sum.splits dest: until_attrValue_error)

lemma script_attrs_error: "script_attrs e src type ts = Inl x \<Longrightarrow> x = next_failure e"
proof (induction e src type ts rule: script_attrs.induct)
  case (1 e src type ts)
  from 1(2) have u:
    "(if src = [] \<and> type = [] then
        (case ts of
           [] \<Rightarrow> Inl (next_failure e)
         | node # ts1 \<Rightarrow>
             (case attr_branch e node ts1 src type of
                Inl x \<Rightarrow> Inl x
              | Inr (node', src', type', ts2) \<Rightarrow>
                  if is_tag_end node' then Inr (src', type', ts2)
                  else script_attrs e src' type' ts2))
      else Inr (src, type, ts)) = Inl x"
    by (subst (asm) script_attrs.simps)
  show ?case
  proof (cases "src = [] \<and> type = []")
    case False
    with u show ?thesis by auto
  next
    case True
    note T = True
    show ?thesis
    proof (cases ts)
      case Nil
      with u T show ?thesis by simp
    next
      case (Cons node ts1)
      show ?thesis
      proof (cases "attr_branch e node ts1 src type")
        case (Inl y)
        with u T Cons have "x = y" by simp
        with Inl show ?thesis by (simp add: attr_branch_error)
      next
        case (Inr r)
        obtain node' src1 type1 ts2 where r: "r = (node', src1, type1, ts2)" by (cases r) auto
        show ?thesis
        proof (cases "is_tag_end node'")
          case True
          with u T Cons Inr r show ?thesis by auto
        next
          case False
          with u T Cons Inr r have "script_attrs e src1 type1 ts2 = Inl x" by simp
          then show ?thesis
            by (rule 1(1)[OF T Cons Inr r[symmetric] refl refl False])
        qed
      qed
    qed
  qed
qed

text \<open>The loop over the attributes of a script tag ends as soon as one of \<^verbatim>\<open>src\<close> and
  \<^verbatim>\<open>type\<close> is set: the two are never set together, and the branch
  \<^verbatim>\<open>if (src && type == '"module"')\<close> of the walk is never taken.\<close>

lemma attr_branch_one_of:
  "attr_branch e node ts [] [] = Inr (node', src', type', ts') \<Longrightarrow> src' = [] \<or> type' = []"
  by (auto simp: attr_branch_def split: if_splits sum.splits)

lemma script_attrs_one_of:
  "script_attrs e src type ts = Inr (src', type', ts') \<Longrightarrow> src = [] \<or> type = [] \<Longrightarrow>
   src' = [] \<or> type' = []"
proof (induction e src type ts rule: script_attrs.induct)
  case (1 e src type ts)
  from 1(2) have u:
    "(if src = [] \<and> type = [] then
        (case ts of
           [] \<Rightarrow> Inl (next_failure e)
         | node # ts1 \<Rightarrow>
             (case attr_branch e node ts1 src type of
                Inl x \<Rightarrow> Inl x
              | Inr (node', src', type', ts2) \<Rightarrow>
                  if is_tag_end node' then Inr (src', type', ts2)
                  else script_attrs e src' type' ts2))
      else Inr (src, type, ts)) = Inr (src', type', ts')"
    by (subst (asm) script_attrs.simps)
  show ?case
  proof (cases "src = [] \<and> type = []")
    case False
    with u 1(3) show ?thesis by auto
  next
    case True
    note T = True
    show ?thesis
    proof (cases ts)
      case Nil
      with u T show ?thesis by simp
    next
      case (Cons node ts1)
      show ?thesis
      proof (cases "attr_branch e node ts1 src type")
        case (Inl x)
        with u T Cons show ?thesis by simp
      next
        case (Inr r)
        obtain node' src1 type1 ts2 where r: "r = (node', src1, type1, ts2)" by (cases r) auto
        from Inr r T have one: "src1 = [] \<or> type1 = []" using attr_branch_one_of by blast
        show ?thesis
        proof (cases "is_tag_end node'")
          case True
          with u T Cons Inr r one show ?thesis by auto
        next
          case False
          with u T Cons Inr r have "script_attrs e src1 type1 ts2 = Inr (src', type', ts')" by simp
          then show ?thesis
            using one by (rule 1(1)[OF T Cons Inr r[symmetric] refl refl False])
        qed
      qed
    qed
  qed
qed

lemma next_failure_cases: "next_failure e = TypeError \<or> next_failure e = InvalidSyntax"
  by (cases e) simp_all

lemma preload_walk_error:
  "preload_walk e ts originalEntries = Inl x \<Longrightarrow> x = next_failure e"
proof (induction e ts originalEntries rule: preload_walk.induct)
  case (1 e originalEntries)
  then show ?case by (cases e) simp_all
next
  case (2 e node ts originalEntries)
  show ?case
  proof (cases "tk_type node = TagOpen \<and> tk_value node = ''<script''")
    case False
    with 2 show ?thesis by auto
  next
    case True
    note scr = True
    show ?thesis
    proof (cases "script_attrs e [] [] ts")
      case (Inl y)
      with 2(3) scr have "x = y" by simp
      with script_attrs_error[OF Inl] show ?thesis by simp
    next
      case (Inr r)
      obtain src type ts' where r: "r = (src, type, ts')" by (cases r) auto
      from Inr r have "src = [] \<or> type = []" using script_attrs_one_of by blast
      then have F: "\<not> (src \<noteq> [] \<and> type = [CHR 0x22] @ ''module'' @ [CHR 0x22])" by auto
      with 2(3) scr Inr r have "preload_walk e ts' originalEntries = Inl x" by auto
      with 2(1)[OF scr Inr r[symmetric] refl F] show ?thesis by simp
    qed
  qed
qed

section \<open>The claims\<close>

text \<open>
  C1 (the code at a failing input). The claim: the texts of the tokens of any document,
  concatenated, give the document back. The document here has balanced tags and a
  comment of two lines. At the line feed inside the comment no rule of the comment
  state matches (\<^verbatim>\<open>commentEnd\<close> needs \<^verbatim>\<open>-->\<close> after the white space, \<^verbatim>\<open>commentAny\<close> is
  \<^verbatim>\<open>/./\<close>, which no line terminator matches), so \<^verbatim>\<open>next()\<close> throws after three tokens,
  whose texts are the first 7 of the 17 characters.
\<close>

theorem parseHTML_comment_line_break:
  "snd (parseHTML ''<p><!--\<newline>x--></p>'') = Invalid \<and>
   map tk_text (fst (parseHTML ''<p><!--\<newline>x--></p>'')) = [''<p'', ''>'', ''<!--'']"
  by (simp add: lexer_simps)

text \<open>
  C2, as amended. Take an HTML file that the tokenizer reads to its end and in which it
  reads both tags as tags: the tokens of the file are tokens that open no link or script
  tag and, in either order, the five tokens of \<^verbatim>\<open><link href="/a.css"\<close> and the five tokens
  of \<^verbatim>\<open><script src="/b.js"\<close>. Where \<^verbatim>\<open>b.js\<close> imports nothing, \<^verbatim>\<open>scanHTML\<close> with build root
  \<^term>\<open>root\<close> gives the file the sets \<^verbatim>\<open>css = [join(root, "/a.css")]\<close> and
  \<^verbatim>\<open>js = entry = [join(root, "/b.js")]\<close>. The witness is the page with one tag on a line.
\<close>

theorem scanHTML_link_script:
  assumes "files htmlFile = Some doc"
    and "parseHTML doc = (ts, Eof)"
    and "ts = s0 @ lnk @ s1 @ scr @ s2 \<or> ts = s0 @ scr @ s1 @ lnk @ s2"
    and "tag_tokens ''<link'' ''href'' ''/a.css'' lnk"
    and "tag_tokens ''<script'' ''src'' ''/b.js'' scr"
    and "\<forall>t \<in> set (s0 @ s1 @ s2). inert t"
    and "static_imports g (path_join root ''/b.js'') = []"
  shows "scanHTML files g [htmlFile] root =
     Inr [htmlFile \<mapsto> \<lparr>entry = [path_join root ''/b.js''], css = [path_join root ''/a.css''],
                         js = [path_join root ''/b.js'']\<rparr>]"
proof -
  let ?acc = "\<lparr>entry = [], css = [], js = []\<rparr>"
  let ?res = "\<lparr>entry = [path_join root ''/b.js''], css = [path_join root ''/a.css''],
               js = [path_join root ''/b.js'']\<rparr>"
  from assms(6) have i0: "\<forall>t \<in> set s0. inert t" and i1: "\<forall>t \<in> set s1. inert t"
    and i2: "\<forall>t \<in> set s2. inert t" by auto
  have e2: "\<And>acc. walk root htmlFile Eof s2 acc = Inr acc"
    using walk_inert[OF i2, of root htmlFile Eof "[]"] by simp
  have w: "walk root htmlFile Eof ts ?acc = Inr ?res"
  proof (rule disjE[OF assms(3)])
    assume "ts = s0 @ lnk @ s1 @ scr @ s2"
    then show ?thesis
      by (simp add: walk_inert[OF i0] walk_inert[OF i1] walk_link[OF assms(4)]
          walk_script[OF assms(5)] e2 set_add_def)
  next
    assume "ts = s0 @ scr @ s1 @ lnk @ s2"
    then show ?thesis
      by (simp add: walk_inert[OF i0] walk_inert[OF i1] walk_link[OF assms(4)]
          walk_script[OF assms(5)] e2 set_add_def)
  qed
  have "scanHTML_file g root htmlFile doc = Inr ?res"
    using assms(2) w by (simp add: scanHTML_file_def forEach_scanJS_single[OF assms(7)])
  with assms(1) show ?thesis by (simp add: scan_one_def)
qed

theorem scanHTML_link_script_witness:
  "scanHTML [''/build/index.html'' \<mapsto> page_full] [] [''/build/index.html''] ''/build'' =
     Inr [''/build/index.html'' \<mapsto>
       \<lparr>entry = [''/build/b.js''], css = [''/build/a.css''], js = [''/build/b.js'']\<rparr>]"
proof -
  have j: "path_join ''/build'' ''/b.js'' = ''/build/b.js''"
    "path_join ''/build'' ''/a.css'' = ''/build/a.css''"
    by (simp_all add: path_join_def path_normalize_def)
  have "\<exists>T. parseHTML page_full = (T, Eof) \<and>
      T = take 10 T @ take 5 (drop 10 T) @ take 10 (drop 15 T) @ take 5 (drop 25 T) @ drop 30 T \<and>
      tag_tokens ''<link'' ''href'' ''/a.css'' (take 5 (drop 10 T)) \<and>
      tag_tokens ''<script'' ''src'' ''/b.js'' (take 5 (drop 25 T)) \<and>
      (\<forall>t \<in> set (take 10 T @ take 10 (drop 15 T) @ drop 30 T). inert t)"
    by (simp add: page_full_def lexer_simps inert_def)
  then obtain T where T: "parseHTML page_full = (T, Eof)"
    and d: "T = take 10 T @ take 5 (drop 10 T) @ take 10 (drop 15 T) @ take 5 (drop 25 T) @ drop 30 T"
    and l: "tag_tokens ''<link'' ''href'' ''/a.css'' (take 5 (drop 10 T))"
    and s: "tag_tokens ''<script'' ''src'' ''/b.js'' (take 5 (drop 25 T))"
    and i: "\<forall>t \<in> set (take 10 T @ take 10 (drop 15 T) @ drop 30 T). inert t"
    by blast
  have h1: "[''/build/index.html'' \<mapsto> page_full] ''/build/index.html'' = Some page_full"
    by simp
  have h7: "static_imports [] (path_join ''/build'' ''/b.js'') = []"
    by (simp add: static_imports_def)
  from d have d': "T = take 10 T @ take 5 (drop 10 T) @ take 10 (drop 15 T) @ take 5 (drop 25 T) @ drop 30 T \<or>
      T = take 10 T @ take 5 (drop 25 T) @ take 10 (drop 15 T) @ take 5 (drop 10 T) @ drop 30 T"
    by (rule disjI1)
  show ?thesis
    using scanHTML_link_script[where files = "[''/build/index.html'' \<mapsto> page_full]"
        and htmlFile = "''/build/index.html''" and doc = page_full and g = "[]"
        and root = "''/build''", OF h1 T d' l s i h7]
    by (simp add: j)
qed

text \<open>
  C2, the counterexample to the claim as it stands (every HTML file whose body holds
  exactly the two tags). In the page of one line the text \<^verbatim>\<open>T\<close> of the title stands before
  the two tags: the rule \<^verbatim>\<open>any\<close>, \<^verbatim>\<open>/.+/\<close>, takes the text and the rest of the line with it,
  no token opens a link or a script tag, and the three sets are empty.
\<close>

theorem scanHTML_text_before_tags:
  "scanHTML [''/build/index.html'' \<mapsto> page_one_line] [] [''/build/index.html''] ''/build'' =
     Inr [''/build/index.html'' \<mapsto> \<lparr>entry = [], css = [], js = []\<rparr>] \<and>
   scanHTML [''/build/index.html'' \<mapsto> page_one_line] [] [''/build/index.html''] ''/build'' \<noteq>
     Inr [''/build/index.html'' \<mapsto>
       \<lparr>entry = [''/build/b.js''], css = [''/build/a.css''], js = [''/build/b.js'']\<rparr>]"
proof -
  have a: "scanHTML [''/build/index.html'' \<mapsto> page_one_line] [] [''/build/index.html''] ''/build'' =
     Inr [''/build/index.html'' \<mapsto> \<lparr>entry = [], css = [], js = []\<rparr>]"
    by (simp add: scan_one_def page_one_line_def lexer_simps scan_simps forEach_scanJS_Nil)
  have "[''/build/index.html'' \<mapsto> \<lparr>entry = [], css = [], js = []\<rparr>] \<noteq>
     [''/build/index.html'' \<mapsto>
       \<lparr>entry = [''/build/b.js''], css = [''/build/a.css''], js = [''/build/b.js'']\<rparr>]"
    by (auto dest: map_upd_eqD1)
  with a show ?thesis by simp
qed

text \<open>
  C3 (the code at a failing input). The claim: the path added to \<^verbatim>\<open>css\<close> is the value of
  \<^verbatim>\<open>href\<close>, whatever attributes come before it. The loop
  \<^verbatim>\<open>while (attrStart.type !== 'attrName' && attrStart.value !== 'href')\<close> stops at the first
  attribute name, here \<^verbatim>\<open>rel\<close>, and the value taken is the one of \<^verbatim>\<open>rel\<close>: the path added is
  \<^verbatim>\<open>stylesheet\<close> in the directory of the file, and \<^verbatim>\<open>/a.css\<close> is not added.
\<close>

theorem scanHTML_link_rel_before_href:
  "scanHTML_file g root htmlFile ''<link rel=\"stylesheet\" href=\"/a.css\">'' =
     Inr \<lparr>entry = [], css = [path_join (path_dirname htmlFile) ''stylesheet''], js = []\<rparr>"
  by (simp add: lexer_simps scan_simps forEach_scanJS_Nil)

text \<open>
  C4 (the code at failing inputs). The claim: a link without \<^verbatim>\<open>href\<close> or a script without
  \<^verbatim>\<open>src\<close> adds nothing and never makes \<^verbatim>\<open>scanHTML\<close> fail. The two inner loops of \<^verbatim>\<open>scanHTML\<close>
  do not look for the end of the tag: with no attribute left in the document they run
  to its end and read \<^verbatim>\<open>type\<close> of \<^verbatim>\<open>undefined\<close>; with an attribute in a later tag they take
  that one, here the \<^verbatim>\<open>href\<close> of an anchor.
\<close>

theorem scanHTML_tag_without_attribute:
  "scanHTML_file g root htmlFile ''<html><head><link></head></html>'' = Inl TypeError \<and>
   scanHTML_file g root htmlFile ''<script></script>'' = Inl TypeError \<and>
   scanHTML_file g root htmlFile ''<link><a href=\"/x\">'' =
     Inr \<lparr>entry = [], css = [path_join root ''/x''], js = []\<rparr>"
  by (simp add: lexer_simps scan_simps forEach_scanJS_Nil)

text \<open>
  C5 (the code at failing inputs). The claim: a value in single quotes or without
  quotes gives an \<^verbatim>\<open>attrValue\<close> token whose value is the content in double quotes. The
  rule \<^verbatim>\<open>attrValue\<close> matches \<^verbatim>\<open>/"[^"]+"/\<close> only; for \<^verbatim>\<open>href='x'\<close> and for \<^verbatim>\<open>href=x\<close> the rule that
  matches is \<^verbatim>\<open>attrAny\<close>, to the end of the line, and its value is the text as it is.
\<close>

theorem parseHTML_value_not_double_quoted:
  "map (\<lambda>t. (tk_type t, tk_value t))
       (fst (parseHTML (''<a href='' @ [CHR 0x27] @ ''x'' @ [CHR 0x27] @ ''>''))) =
     [(TagOpen, ''<a''), (TagWS, '' ''), (AttrName, ''href''), (AttrAssignment, ''=''),
      (AttrAny, [CHR 0x27] @ ''x'' @ [CHR 0x27] @ ''>'')] \<and>
   map (\<lambda>t. (tk_type t, tk_value t)) (fst (parseHTML ''<a href=x>'')) =
     [(TagOpen, ''<a''), (TagWS, '' ''), (AttrName, ''href''), (AttrAssignment, ''=''),
      (AttrAny, ''x>'')]"
  by (simp add: lexer_simps)

text \<open>
  C6. On \<^verbatim>\<open><html><head></head></html>\<close>, \<^verbatim>\<open>injectHTML\<close> with a \<^verbatim>\<open>headEnd\<close> returns the
  document with a tab, \<^verbatim>\<open>headEnd\<close> and a line feed directly before \<^verbatim>\<open></head>\<close>, every
  other character as it was (an empty \<^verbatim>\<open>headEnd\<close> counts as none, and nothing is
  inserted). More generally, for every document that the tokenizer reads to its end,
  the result is \<^term>\<open>spliced\<close>: the texts of the tokens, which are the document, with each
  insertion directly before the closing tag it was made for; without insertions that
  is the document itself.
\<close>

theorem injectHTML_headEnd:
  "injectHTML ''<html><head></head></html>'' (Some headEnd) None =
     Inr (''<html><head>'' @ (if headEnd = [] then [] else [CHR 0x09] @ headEnd @ [CHR 0x0A]) @
          ''</head></html>'') \<and>
   (parseHTML htmlDoc = (ts, Eof) \<longrightarrow>
      injectHTML htmlDoc h b = Inr (spliced h b [] ts) \<and>
      concat (map tk_text ts) = htmlDoc \<and> spliced None None [] ts = htmlDoc)"
proof -
  have "parseHTML ''<html><head></head></html>'' =
      (fst (parseHTML ''<html><head></head></html>''), Eof)"
    by (simp add: lexer_simps)
  from injectHTML_spliced[OF this, of "Some headEnd" None]
  have "injectHTML ''<html><head></head></html>'' (Some headEnd) None =
     Inr (''<html><head>'' @ (if headEnd = [] then [] else [CHR 0x09] @ headEnd @ [CHR 0x0A]) @
          ''</head></html>'')"
    by (simp add: lexer_simps inserted_def insertion_def)
  moreover have "parseHTML htmlDoc = (ts, Eof) \<longrightarrow>
      injectHTML htmlDoc h b = Inr (spliced h b [] ts) \<and>
      concat (map tk_text ts) = htmlDoc \<and> spliced None None [] ts = htmlDoc"
    using injectHTML_spliced[of htmlDoc ts h b] parseHTML_roundtrip[of htmlDoc ts]
    by (simp add: spliced_nothing)
  ultimately show ?thesis by simp
qed

theorem injectHTML_headEnd_witness:
  "injectHTML ''<html><head></head></html>'' (Some ''<X/>'') None =
     Inr (''<html><head>'' @ [CHR 0x09] @ ''<X/>'' @ [CHR 0x0A] @ ''</head></html>'') \<and>
   parseHTML ''<p></body>'' = (fst (parseHTML ''<p></body>''), Eof) \<and>
   injectHTML ''<p></body>'' None (Some ''<Y/>'') =
     Inr (''<p>'' @ [CHR 0x09] @ ''<Y/>'' @ [CHR 0x0A] @ ''</body>'')"
proof -
  have h: "parseHTML ''<p></body>'' = (fst (parseHTML ''<p></body>''), Eof)"
    by (simp add: lexer_simps)
  show ?thesis
    using injectHTML_headEnd[of "''<X/>''" "''<p></body>''" "fst (parseHTML ''<p></body>'')"
        None "Some ''<Y/>''"] h
    by (simp add: lexer_simps inserted_def insertion_def)
qed

text \<open>
  C7. The transitive scan is a total function: its termination is proved above for every
  import graph, cyclic or not, and every set of seeds. Its result is exactly the set of
  the files reachable from the seeds along the imports. On the graph in which \<^term>\<open>b\<close>
  imports \<^term>\<open>c\<close> and \<^term>\<open>c\<close> imports \<^term>\<open>b\<close>, the scan seeded with \<^term>\<open>b\<close> gives
  exactly \<^term>\<open>b\<close> and \<^term>\<open>c\<close>; and so does \<^verbatim>\<open>scanHTML\<close> on a page whose script is
  \<^verbatim>\<open>/b.js\<close>.
\<close>

theorem scan_import_cycle:
  "set (forEach_scanJS g 0 [] seeds) = (import_edges g)\<^sup>* `` set seeds \<and>
   forEach_scanJS [(b, [c]), (c, [b])] 0 [] [b] = (if b = c then [b] else [b, c]) \<and>
   scanHTML_file [(''/build/b.js'', [''/build/c.js'']), (''/build/c.js'', [''/build/b.js''])]
       ''/build'' ''/build/index.html'' ''<script src=\"/b.js\"></script>'' =
     Inr \<lparr>entry = [''/build/b.js''], css = [], js = [''/build/b.js'', ''/build/c.js'']\<rparr>"
proof -
  have j: "path_join ''/build'' ''/b.js'' = ''/build/b.js''"
    by (simp add: path_join_def path_normalize_def)
  have "scanHTML_file [(''/build/b.js'', [''/build/c.js'']), (''/build/c.js'', [''/build/b.js''])]
       ''/build'' ''/build/index.html'' ''<script src=\"/b.js\"></script>'' =
     Inr \<lparr>entry = [''/build/b.js''], css = [], js = [''/build/b.js'', ''/build/c.js'']\<rparr>"
    by (simp add: lexer_simps scan_simps j
        forEach_scanJS_cycle[of "''/build/b.js''" "''/build/c.js''"])
  with forEach_scanJS_cycle forEach_scanJS_reachable show ?thesis by simp
qed

text \<open>
  C8 (the code at a failing input). The claim: \<^verbatim>\<open>preloadJS\<close> applied to its own output
  returns it unchanged. \<^verbatim>\<open>preloadJS\<close> has no output: on this page, as on every page, it
  raises, here the \<^verbatim>\<open>ReferenceError\<close> of \<^verbatim>\<open>cssName\<close>.
\<close>

theorem preloadJS_module_page:
  "preloadJS g
      ''<html><head></head><body><script type=\"module\" src=\"/app.js\"></script></body></html>''
      rootDir htmlFile preloadCSS = Inl (ReferenceError ''cssName'')"
  by (simp add: preloadJS_def lexer_simps attr_branch_def is_tag_end_def script_attrs.simps)

text \<open>
  C9 (the code against the claim). The claim: with \<^verbatim>\<open>preloadCSS\<close> the files that end in
  \<^verbatim>\<open>.css.proxy.js\<close> get no optimize task, and without \<^verbatim>\<open>preloadCSS\<close> the modules are still
  preloaded. The filter of the optimizer ends in \<^verbatim>\<open>|| true\<close> and keeps every file; the
  filter of the preload list has \<^verbatim>\<open>preloadCSS &&\<close> in front and keeps no module when
  \<^verbatim>\<open>preloadCSS\<close> is off.
\<close>

theorem proxy_filters:
  "optimized_files preloadCSS allFiles = allFiles \<and>
   resolvedModules projectURL rootDir False originalEntries allModules = []"
  by (simp add: optimized_files_def optimize_filter_def resolvedModules_def)

text \<open>
  C10. \<^verbatim>\<open>preloadJS\<close> never returns a document: every call raises an exception, the one of
  the tokenizer, a \<^verbatim>\<open>TypeError\<close> of the walk over the tokens, or, when the walk gets to
  its end, the \<^verbatim>\<open>ReferenceError\<close> of the identifier \<^verbatim>\<open>cssName\<close>.
\<close>

theorem preloadJS_raises:
  "preloadJS g code rootDir htmlFile preloadCSS = Inl InvalidSyntax \<or>
   preloadJS g code rootDir htmlFile preloadCSS = Inl TypeError \<or>
   preloadJS g code rootDir htmlFile preloadCSS = Inl (ReferenceError ''cssName'')"
proof (cases "parseHTML code")
  case (Pair ts e)
  show ?thesis
  proof (cases "preload_walk e ts []")
    case (Inl x)
    with Pair preload_walk_error[OF Inl] next_failure_cases[of e] show ?thesis
      by (auto simp: preloadJS_def)
  next
    case (Inr originalEntries)
    with Pair show ?thesis by (simp add: preloadJS_def)
  qed
qed

end
